theory Spec2Isabelle
  imports Main "HOL-Library.Word" "HOL-Library.Char_ord" "HOL-Library.List_Lexorder"
begin

section \<open>Pre-Compress: conditional gzip artifacts for a directory tree\<close>

text \<open>
  A shallow embedding of package \<open>precompress\<close> (\<open>src/main.go\<close>): the size-capped writer
  \<open>limitedWriter\<close>, the conditional compressor \<open>IfSmallerBuffer\<close>, the queue consumer
  \<open>worker\<close>, the tree walker \<open>recurse\<close> and the orchestrator \<open>Recursive\<close>.

  The operating system, the gzip encoder and the regular expression library are not part of
  the package. They enter the model as explicit data: a file store with a table of injected
  failures, an encoder given by the writes it issues, and a compile function for patterns.
\<close>

subsection \<open>Bytes, paths, times and errors\<close>

type_synonym byte = "8 word"
type_synonym path = string

text \<open>
  A \<open>time.Time\<close> is modelled by the instant it denotes, counted in nanoseconds from the Unix
  epoch; \<open>Equal\<close> compares instants. The zero \<open>time.Time\<close> is the first instant of the year 1,
  62135596800 seconds before the epoch; it is the default of the flag \<open>m-time\<close> (line 32).
  \<open>UnixNano\<close> returns the count as an \<open>int64\<close> and wraps around for an instant outside its
  range (before 1678 or after 2262).
\<close>

type_synonym time = int

definition zero_time :: time where
  "zero_time = - 62135596800 * 1000000000"

definition UnixNano :: "time \<Rightarrow> int" where
  "UnixNano t = sint (word_of_int t :: 64 word)"

text \<open>The times that \<open>os.Chtimes\<close> stores as they are.\<close>

definition storable :: "time \<Rightarrow> bool" where
  "storable t = (t \<noteq> zero_time \<and> - (2 ^ 63) \<le> t \<and> t < 2 ^ 63)"

text \<open>
  Errors. \<open>errSizeThresholdExceeded\<close> is the package's own sentinel (line 147). Every other
  error comes from a library: \<open>OSError\<close> from package \<open>os\<close> and from reading the file,
  \<open>RegexpError\<close> from \<open>regexp.Compile\<close>. The sentinel is private to the package, so no
  library call can return it: the injected failures below are of type \<open>string\<close>.
\<close>

datatype error =
    errSizeThresholdExceeded
  | OSError string
  | RegexpError string

subsection \<open>The size-capped writer (lines 149-161)\<close>

text \<open>
  \<open>limitedWriter\<close> holds the output buffer and the remaining budget. \<open>bytes.Buffer.Write\<close>
  appends all of \<open>p\<close> and returns \<open>(len(p), nil)\<close>. The budget is a Go \<open>int\<close>; it starts at a
  file size and decreases by the lengths of in-memory slices, so it stays far inside the 64-bit
  range and is modelled by an unbounded integer.
\<close>

record limitedWriter =
  lw_buf :: "byte list"
  lw_n :: int

definition Write :: "limitedWriter \<Rightarrow> byte list \<Rightarrow> limitedWriter \<times> int \<times> error option" where
  "Write l p =
     (let n = int (length p);
          l' = \<lparr>lw_buf = lw_buf l @ p, lw_n = lw_n l - n\<rparr>
      in if lw_n l' < 0 then (l', 0, Some errSizeThresholdExceeded)
         else (l', n, None))"

text \<open>
  The encoder hands its output to the writer one slice after the other and stops at the first
  write that fails (\<open>compress/flate\<close> and \<open>compress/gzip\<close> keep the first error and return it
  from every later call without writing). \<open>write_all\<close> is that sequence of calls of \<open>Write\<close>.
\<close>

fun write_all :: "limitedWriter \<Rightarrow> byte list list \<Rightarrow> limitedWriter \<times> error option" where
  "write_all l [] = (l, None)"
| "write_all l (p # ps) =
     (case Write l p of
        (l', _, Some e) \<Rightarrow> (l', Some e)
      | (l', _, None) \<Rightarrow> write_all l' ps)"

subsection \<open>The file store and the calls of package \<open>os\<close>\<close>

text \<open>
  A regular file has contents, a modification time and permission bits. The store maps a path
  to the file there. \<open>fs_fault\<close> injects failures: a call fails with the message the table
  gives for it, so that every error return of the package can be reached. \<open>Read p k\<close> is the
  \<open>k\<close>-th read of the open file \<open>p\<close>. \<open>fs_clock\<close> is the time a newly written file gets.
\<close>

record osfile =
  f_data :: "byte list"
  f_modTime :: time
  f_perm :: nat

datatype syscall =
    Stat path
  | Chtimes path
  | Open path
  | Read path nat
  | WriteFile path
  | Rename path path
  | ReadDir path

record fsys =
  fs_files :: "path \<Rightarrow> osfile option"
  fs_fault :: "syscall \<Rightarrow> string option"
  fs_clock :: time

text \<open>What \<open>os.Stat\<close> reports of a file: \<open>Size()\<close>, \<open>ModTime()\<close> and \<open>Mode().Perm()\<close>.\<close>

record fileInfo =
  st_size :: nat
  st_modTime :: time
  st_perm :: nat

definition os_Stat :: "fsys \<Rightarrow> path \<Rightarrow> error + fileInfo" where
  "os_Stat fs p =
     (case fs_fault fs (Stat p) of
        Some e \<Rightarrow> Inl (OSError e)
      | None \<Rightarrow>
         (case fs_files fs p of
            None \<Rightarrow> Inl (OSError ''no such file or directory'')
          | Some f \<Rightarrow>
              Inr \<lparr>st_size = length (f_data f), st_modTime = f_modTime f, st_perm = f_perm f\<rparr>))"

text \<open>
  \<open>os.Chtimes(p, m, m)\<close> asks the system to set the access and modification times of \<open>p\<close>. For
  the zero \<open>time.Time\<close> it asks to leave the time as it is (the call is still made, and fails
  for a missing file); for any other time it passes \<open>m.UnixNano()\<close>, so the file gets the
  wrapped count. The store keeps times to the nanosecond.
\<close>

definition os_Chtimes :: "fsys \<Rightarrow> path \<Rightarrow> time \<Rightarrow> error + fsys" where
  "os_Chtimes fs p m =
     (case fs_fault fs (Chtimes p) of
        Some e \<Rightarrow> Inl (OSError e)
      | None \<Rightarrow>
         (case fs_files fs p of
            None \<Rightarrow> Inl (OSError ''no such file or directory'')
          | Some f \<Rightarrow>
              if m = zero_time then Inr fs
              else Inr (fs\<lparr>fs_files := (fs_files fs)(p \<mapsto> f\<lparr>f_modTime := UnixNano m\<rparr>)\<rparr>)))"

text \<open>An open file is modelled by the contents that will be read from it.\<close>

definition os_Open :: "fsys \<Rightarrow> path \<Rightarrow> error + byte list" where
  "os_Open fs p =
     (case fs_fault fs (Open p) of
        Some e \<Rightarrow> Inl (OSError e)
      | None \<Rightarrow>
         (case fs_files fs p of
            None \<Rightarrow> Inl (OSError ''no such file or directory'')
          | Some f \<Rightarrow> Inr (f_data f)))"

text \<open>
  \<open>os.WriteFile\<close> creates the file with the given permission bits, or truncates an existing
  one and keeps its bits; either way the contents are replaced and the file is stamped with
  the current time. (The process umask is not modelled.)
\<close>

definition os_WriteFile :: "fsys \<Rightarrow> path \<Rightarrow> byte list \<Rightarrow> nat \<Rightarrow> error + fsys" where
  "os_WriteFile fs p d perm =
     (case fs_fault fs (WriteFile p) of
        Some e \<Rightarrow> Inl (OSError e)
      | None \<Rightarrow>
         (let f = (case fs_files fs p of
                     None \<Rightarrow> \<lparr>f_data = d, f_modTime = fs_clock fs, f_perm = perm\<rparr>
                   | Some g \<Rightarrow> g\<lparr>f_data := d, f_modTime := fs_clock fs\<rparr>)
          in Inr (fs\<lparr>fs_files := (fs_files fs)(p \<mapsto> f)\<rparr>)))"

definition os_Rename :: "fsys \<Rightarrow> path \<Rightarrow> path \<Rightarrow> error + fsys" where
  "os_Rename fs src dst =
     (case fs_fault fs (Rename src dst) of
        Some e \<Rightarrow> Inl (OSError e)
      | None \<Rightarrow>
         (case fs_files fs src of
            None \<Rightarrow> Inl (OSError ''no such file or directory'')
          | Some f \<Rightarrow> Inr (fs\<lparr>fs_files := ((fs_files fs)(src := None))(dst \<mapsto> f)\<rparr>)))"

subsection \<open>The encoder and \<open>io.CopyBuffer\<close>\<close>

text \<open>
  The gzip writer is a library. All the package relies on is that a call of its \<open>Write\<close> or
  \<open>Close\<close> hands some slices to the underlying writer, in order, and gives up at the first
  write that fails, returning that error. An encoder is therefore a state machine: for the
  input slice \<open>p\<close>, \<open>enc_write z p\<close> is the next state and the slices written; \<open>enc_close z\<close> are
  the slices written by \<open>Close\<close>. \<open>gzip.NewWriterLevel\<close> with \<open>gzip.BestCompression\<close> cannot fail
  (the level is valid), so the branch at line 111 is never taken.
\<close>

record 'z encoder =
  enc_init :: 'z
  enc_write :: "'z \<Rightarrow> byte list \<Rightarrow> 'z \<times> byte list list"
  enc_close :: "'z \<Rightarrow> byte list list"

definition gz_Write ::
  "'z encoder \<Rightarrow> 'z \<Rightarrow> limitedWriter \<Rightarrow> byte list \<Rightarrow> 'z \<times> limitedWriter \<times> int \<times> error option" where
  "gz_Write enc z l p =
     (case enc_write enc z p of
        (z', ws) \<Rightarrow>
          (case write_all l ws of
             (l', Some e) \<Rightarrow> (z', l', 0, Some e)
           | (l', None) \<Rightarrow> (z', l', int (length p), None)))"

definition gz_Close :: "'z encoder \<Rightarrow> 'z \<Rightarrow> limitedWriter \<Rightarrow> limitedWriter \<times> error option" where
  "gz_Close enc z l = write_all l (enc_close enc z)"

text \<open>
  The file is read in slices of at most the length of the copy buffer. \<open>chop k xs\<close> are those
  slices. The package calls with \<open>buf = nil\<close> (then \<open>io.CopyBuffer\<close> allocates 32 KiB) or with a
  buffer of 32 KiB; a buffer that is not nil and empty makes \<open>io.CopyBuffer\<close> panic and lies
  outside the model (\<open>chop 0\<close> reads nothing).
\<close>

function chop :: "nat \<Rightarrow> 'a list \<Rightarrow> 'a list list" where
  "chop k xs = (if k = 0 \<or> xs = [] then [] else take k xs # chop k (drop k xs))"
  by pat_completeness auto
termination
  by (relation "measure (\<lambda>(k, xs). length xs)") auto

declare chop.simps [simp del]

definition buf_len :: "nat option \<Rightarrow> nat" where
  "buf_len buf = (case buf of None \<Rightarrow> 32 * 1024 | Some k \<Rightarrow> k)"

text \<open>
  The loop of \<open>io.CopyBuffer\<close>: read a slice, write it to the encoder, add the bytes written;
  stop at the first error of either side, or at the end of the file. \<open>rf k\<close> is the failure
  injected into the \<open>k\<close>-th read.
\<close>

fun CopyBuffer ::
  "'z encoder \<Rightarrow> (nat \<Rightarrow> string option) \<Rightarrow> nat \<Rightarrow> byte list list \<Rightarrow> 'z \<Rightarrow> limitedWriter \<Rightarrow> int
     \<Rightarrow> 'z \<times> limitedWriter \<times> int \<times> error option" where
  "CopyBuffer enc rf k [] z l written = (z, l, written, map_option OSError (rf k))"
| "CopyBuffer enc rf k (c # cs) z l written =
     (case rf k of
        Some e \<Rightarrow> (z, l, written, Some (OSError e))
      | None \<Rightarrow>
         (case gz_Write enc z l c of
            (z', l', nw, Some e) \<Rightarrow> (z', l', written + nw, Some e)
          | (z', l', nw, None) \<Rightarrow> CopyBuffer enc rf (Suc k) cs z' l' (written + nw)))"

subsection \<open>The conditional compressor (lines 86-145)\<close>

text \<open>
  \<open>IfSmallerBuffer\<close> returns the store it leaves behind, the contents of \<open>out\<close>, and the pair
  \<open>(changed, err)\<close> of the source. \<open>out.Grow\<close> only reserves capacity. The deferred
  \<open>f.Close()\<close> has no effect on the store. The deferred \<open>z.Close()\<close> writes nothing once the
  encoder has failed or has been closed; after a failed read it still flushes into \<open>out\<close>.
\<close>

text \<open>Lines 95-99: the modification time of the source is set unless it is the target already.\<close>

definition set_mtime :: "fsys \<Rightarrow> path \<Rightarrow> time \<Rightarrow> fileInfo \<Rightarrow> error + fsys" where
  "set_mtime fs path m s = (if st_modTime s \<noteq> m then os_Chtimes fs path m else Inr fs)"

text \<open>
  Lines 106-116: \<open>out\<close> is reset, the capped writer gets the size \<open>os.Stat\<close> reported as its
  budget, and the open file \<open>f\<close> is copied into a fresh encoder on top of it.
\<close>

definition copy_file ::
  "'z encoder \<Rightarrow> fsys \<Rightarrow> path \<Rightarrow> nat option \<Rightarrow> byte list \<Rightarrow> fileInfo
     \<Rightarrow> 'z \<times> limitedWriter \<times> int \<times> error option" where
  "copy_file enc fs path buf f s =
     CopyBuffer enc (\<lambda>k. fs_fault fs (Read path k)) 0 (chop (buf_len buf) f) (enc_init enc)
       \<lparr>lw_buf = [], lw_n = int (st_size s)\<rparr> 0"

definition IfSmallerBuffer ::
  "'z encoder \<Rightarrow> fsys \<Rightarrow> path \<Rightarrow> time \<Rightarrow> byte list \<Rightarrow> nat option
     \<Rightarrow> fsys \<times> byte list \<times> bool \<times> error option" where
  "IfSmallerBuffer enc fs path m out buf =
     (case os_Stat fs path of
        Inl e \<Rightarrow> (fs, out, False, Some e)
      | Inr s \<Rightarrow>
         (case set_mtime fs path m s of
            Inl e \<Rightarrow> (fs, out, False, Some e)
          | Inr fs1 \<Rightarrow>
             (case os_Open fs1 path of
                Inl e \<Rightarrow> (fs1, out, False, Some e)
              | Inr f \<Rightarrow>
                 (case copy_file enc fs1 path buf f s of
                    (z1, w1, n, Some e) \<Rightarrow>
                      (if e = errSizeThresholdExceeded then (fs1, lw_buf w1, False, None)
                       else (fs1, lw_buf (fst (gz_Close enc z1 w1)), False, Some e))
                  | (z1, w1, n, None) \<Rightarrow>
                      (case gz_Close enc z1 w1 of
                         (w2, Some e) \<Rightarrow>
                           (if e = errSizeThresholdExceeded then (fs1, lw_buf w2, False, None)
                            else (fs1, lw_buf w2, False, Some e))
                       | (w2, None) \<Rightarrow>
                           (if int (length (lw_buf w2)) \<ge> n then (fs1, lw_buf w2, False, None)
                            else
                              (case os_WriteFile fs1 (path @ ''.gz~'') (lw_buf w2) (st_perm s) of
                                 Inl e \<Rightarrow> (fs1, lw_buf w2, False, Some e)
                               | Inr fs2 \<Rightarrow>
                                  (case os_Chtimes fs2 (path @ ''.gz~'') m of
                                     Inl e \<Rightarrow> (fs2, lw_buf w2, False, Some e)
                                   | Inr fs3 \<Rightarrow>
                                      (case os_Rename fs3 (path @ ''.gz~'') (path @ ''.gz'') of
                                         Inl e \<Rightarrow> (fs3, lw_buf w2, False, Some e)
                                       | Inr fs4 \<Rightarrow> (fs4, lw_buf w2, True, None))))))))))"

definition IfSmaller :: "'z encoder \<Rightarrow> fsys \<Rightarrow> path \<Rightarrow> time \<Rightarrow> fsys \<times> bool \<times> error option" where
  "IfSmaller enc fs path m =
     (case IfSmallerBuffer enc fs path m [] None of (fs', _, r) \<Rightarrow> (fs', r))"

subsection \<open>Directory listings and relative paths\<close>

text \<open>
  A directory entry is a regular file, a directory with the entries \<open>os.ReadDir\<close> lists for
  it, or something else (a symlink, a device). The walker reads names and types only.
\<close>

datatype entry =
    File string
  | Dir string "entry list"
  | Special string

fun Name :: "entry \<Rightarrow> string" where
  "Name (File nm) = nm"
| "Name (Dir nm sub) = nm"
| "Name (Special nm) = nm"

text \<open>
  \<open>filepath.Join\<close> drops empty elements and joins the rest with the separator. The paths of
  the package are clean already (the root is a working directory, the other elements are
  entry names), so the final \<open>Clean\<close> changes nothing.
\<close>

definition Join :: "path \<Rightarrow> string \<Rightarrow> path" where
  "Join a b = (if a = [] then b else if b = [] then a else a @ ''/'' @ b)"

definition HasSuffix :: "string \<Rightarrow> string \<Rightarrow> bool" where
  "HasSuffix s suf = (length suf \<le> length s \<and> drop (length s - length suf) s = suf)"

subsection \<open>The tree walker (lines 183-219)\<close>

text \<open>
  The inner loop (lines 204-212) over the entries after the current one: the index \<open>j\<close> runs
  over the rest of the listing. Strings compare bytewise, as in Go.
\<close>

fun scan :: "string \<Rightarrow> entry list \<Rightarrow> bool" where
  "scan needle [] = False"
| "scan needle (d # ds) =
     (if Name d = needle then True
      else if needle < Name d then False
      else scan needle ds)"

text \<open>
  \<open>recurse\<close> returns the paths it sends to the channel, in order, and its error. \<open>rd p\<close> is
  the failure of \<open>os.ReadDir\<close> on \<open>p\<close>, if any; \<open>dirs\<close> is the listing it returns otherwise.
  \<open>recurse_loop\<close> is the loop of lines 188-217 from index \<open>i\<close> on: its argument is the
  listing from \<open>dirs[i]\<close> to the end.
\<close>

fun recurse ::
  "(string \<Rightarrow> bool) \<Rightarrow> (path \<Rightarrow> string option) \<Rightarrow> path \<Rightarrow> path \<Rightarrow> entry list
     \<Rightarrow> path list \<times> error option"
and recurse_loop ::
  "(string \<Rightarrow> bool) \<Rightarrow> (path \<Rightarrow> string option) \<Rightarrow> path \<Rightarrow> path \<Rightarrow> entry list
     \<Rightarrow> path list \<times> error option" where
  "recurse ignore rd root prefix dirs =
     (case rd (Join root prefix) of
        Some e \<Rightarrow> ([], Some (OSError e))
      | None \<Rightarrow> recurse_loop ignore rd root prefix dirs)"
| "recurse_loop ignore rd root prefix [] = ([], None)"
| "recurse_loop ignore rd root prefix (File nm # ds) =
     (if HasSuffix nm ''.gz'' then recurse_loop ignore rd root prefix ds
      else if scan (nm @ ''.gz'') ds then recurse_loop ignore rd root prefix ds
      else (case recurse_loop ignore rd root prefix ds of
              (ws, err) \<Rightarrow> (Join prefix nm # ws, err)))"
| "recurse_loop ignore rd root prefix (Dir nm sub # ds) =
     (if ignore (Join prefix nm) then recurse_loop ignore rd root prefix ds
      else (case recurse ignore rd root (Join prefix nm) sub of
              (ws, Some e) \<Rightarrow> (ws, Some e)
            | (ws, None) \<Rightarrow>
                (case recurse_loop ignore rd root prefix ds of
                   (ws', err) \<Rightarrow> (ws @ ws', err))))"
| "recurse_loop ignore rd root prefix (Special nm # ds) =
     recurse_loop ignore rd root prefix ds"

subsection \<open>The worker (lines 163-181)\<close>

text \<open>
  One iteration of the loop of \<open>worker\<close> for the item \<open>s\<close>, on the store \<open>fs\<close>, the buffer \<open>out\<close>
  and the count \<open>n\<close>. The error, when there is one, is what \<open>worker\<close> returns with \<open>n\<close>.
\<close>

definition worker_iter ::
  "'z encoder \<Rightarrow> (string \<Rightarrow> bool) \<Rightarrow> path \<Rightarrow> time \<Rightarrow> string \<Rightarrow> fsys \<times> byte list \<times> int
     \<Rightarrow> (fsys \<times> byte list \<times> int) \<times> error option" where
  "worker_iter enc ignoreRegex root m s st =
     (case st of (fs, out, n) \<Rightarrow>
        if ignoreRegex s then ((fs, out, n), None)
        else
          (case IfSmallerBuffer enc fs (Join root s) m out (Some (32 * 1024)) of
             (fs', out', changed, Some e) \<Rightarrow> ((fs', out', n), Some e)
           | (fs', out', changed, None) \<Rightarrow> ((fs', out', if changed then n + 1 else n), None)))"

text \<open>\<open>worker\<close> on the items it receives from the channel until the channel is closed.\<close>

fun worker ::
  "'z encoder \<Rightarrow> (string \<Rightarrow> bool) \<Rightarrow> path \<Rightarrow> time \<Rightarrow> string list \<Rightarrow> fsys \<times> byte list \<times> int
     \<Rightarrow> (fsys \<times> byte list \<times> int) \<times> error option" where
  "worker enc ignoreRegex root m [] st = (st, None)"
| "worker enc ignoreRegex root m (s # ss) st =
     (case worker_iter enc ignoreRegex root m s st of
        (st', Some e) \<Rightarrow> (st', Some e)
      | (st', None) \<Rightarrow> worker enc ignoreRegex root m ss st')"

subsection \<open>The orchestrator (lines 221-261)\<close>

text \<open>
  \<open>strings.Join\<close>, and the expression handed to \<open>regexp.Compile\<close> at line 225.
\<close>

fun strings_Join :: "string list \<Rightarrow> string \<Rightarrow> string" where
  "strings_Join [] sep = []"
| "strings_Join [x] sep = x"
| "strings_Join (x # y # ys) sep = x @ sep @ strings_Join (y # ys) sep"

definition ignore_expr :: "string list \<Rightarrow> string" where
  "ignore_expr ignorePattern = ''^'' @ strings_Join ignorePattern ''|'' @ ''$''"

text \<open>
  The goroutines run concurrently. The model runs them one queue item at a time: the items
  leave the channel in the order the walker sent them, and the \<open>k\<close>-th item is received by the
  goroutine a schedule names; the receiver handles it before the next item is received. Each
  directory is listed before any of its files is sent, so the walker sees the tree as it was
  before the run.

  A goroutine is in the loop of \<open>worker\<close> (\<open>g_ret = None\<close>) with its count and buffer, or
  \<open>worker\<close> has returned an error and the goroutine discards what it receives (lines
  245-247). \<open>p_calls\<close> is a ghost field: it records each call of \<open>IfSmallerBuffer\<close> with the
  goroutine, the item and the result, and nothing reads it.
\<close>

record goroutine =
  g_n :: int
  g_out :: "byte list"
  g_ret :: "error option"

record pool =
  p_fs :: fsys
  p_gs :: "goroutine list"
  p_calls :: "(nat \<times> string \<times> bool \<times> error option) list"

definition take_item ::
  "'z encoder \<Rightarrow> (string \<Rightarrow> bool) \<Rightarrow> path \<Rightarrow> time \<Rightarrow> string \<times> nat \<Rightarrow> pool \<Rightarrow> pool" where
  "take_item enc ignore root m item p =
     (case item of (s, i) \<Rightarrow>
        (let g = p_gs p ! i
         in case g_ret g of
              Some e \<Rightarrow> p
            | None \<Rightarrow>
               (case worker_iter enc ignore root m s (p_fs p, g_out g, g_n g) of
                  ((fs', out', n'), err) \<Rightarrow>
                    \<lparr>p_fs = fs',
                     p_gs = (p_gs p)[i := \<lparr>g_n = n', g_out = out', g_ret = err\<rparr>],
                     p_calls = p_calls p @
                       (if ignore s then []
                        else [(i, s, snd (snd (IfSmallerBuffer enc (p_fs p) (Join root s) m
                                                 (g_out g) (Some (32 * 1024)))))])\<rparr>)))"

definition run_pool ::
  "'z encoder \<Rightarrow> (string \<Rightarrow> bool) \<Rightarrow> path \<Rightarrow> time \<Rightarrow> (string \<times> nat) list \<Rightarrow> pool \<Rightarrow> pool" where
  "run_pool enc ignore root m queue p = fold (take_item enc ignore root m) queue p"

text \<open>
  Lines 241-244: a goroutine adds its count to \<open>total\<close> and, if \<open>worker\<close> returned an error,
  stores it in \<open>firstErr\<close> unless an error is stored there already.
\<close>

definition publish :: "goroutine \<Rightarrow> int \<times> error option \<Rightarrow> int \<times> error option" where
  "publish g acc =
     (case acc of (total', firstErr) \<Rightarrow>
        (total' + g_n g,
         case g_ret g of
           None \<Rightarrow> firstErr
         | Some e \<Rightarrow> (case firstErr of None \<Rightarrow> Some e | Some e' \<Rightarrow> Some e')))"

text \<open>
  A schedule: \<open>s_take k\<close> picks the goroutine that receives the \<open>k\<close>-th item, and \<open>s_pub\<close> lists
  goroutines in the order they publish; goroutines it does not list publish afterwards.
\<close>

record schedule =
  s_take :: "nat \<Rightarrow> nat"
  s_pub :: "nat list"

definition pub_order :: "nat \<Rightarrow> nat list \<Rightarrow> nat list" where
  "pub_order c pubs =
     (let xs = remdups (filter (\<lambda>i. i < c) pubs)
      in xs @ filter (\<lambda>i. i \<notin> set xs) [0..<c])"

definition assign :: "schedule \<Rightarrow> nat \<Rightarrow> string list \<Rightarrow> (string \<times> nat) list" where
  "assign sch c items = zip items (map (\<lambda>k. s_take sch k mod c) [0..<length items])"

definition start_pool :: "nat \<Rightarrow> fsys \<Rightarrow> pool" where
  "start_pool c fs =
     \<lparr>p_fs = fs, p_gs = replicate c \<lparr>g_n = 0, g_out = [], g_ret = None\<rparr>, p_calls = []\<rparr>"

text \<open>
  What a call of \<open>Recursive\<close> comes to. \<open>make(chan string, concurrency*10)\<close> panics for a
  negative capacity. With no goroutine and an unbuffered channel the first send of the walker
  blocks for ever. Otherwise the call returns the count and the error, and leaves a store.
\<close>

datatype outcome =
    Returned fsys int "error option"
  | Panics
  | Deadlock

definition Recursive ::
  "(string \<Rightarrow> error + (string \<Rightarrow> bool)) \<Rightarrow> 'z encoder \<Rightarrow> schedule \<Rightarrow> fsys \<Rightarrow> entry list
     \<Rightarrow> path \<Rightarrow> time \<Rightarrow> int \<Rightarrow> string list \<Rightarrow> outcome" where
  "Recursive compile enc sch fs tree root m concurrency ignorePattern =
     (case compile (ignore_expr ignorePattern) of
        Inl e \<Rightarrow> Returned fs 0 (Some e)
      | Inr ignore \<Rightarrow>
         if concurrency < 0 then Panics
         else
           (let c = nat concurrency
            in case recurse ignore (\<lambda>p. fs_fault fs (ReadDir p)) root [] tree of
                 (items, err) \<Rightarrow>
                   if c = 0 \<and> items \<noteq> [] then Deadlock
                   else
                     (let p = run_pool enc ignore root m (assign sch c items) (start_pool c fs)
                      in case fold publish (map (\<lambda>i. p_gs p ! i) (pub_order c (s_pub sch)))
                                (0, None) of
                           (total', firstErr) \<Rightarrow>
                             Returned (p_fs p) total'
                               (case err of Some e \<Rightarrow> Some e | None \<Rightarrow> firstErr))))"

subsection \<open>Regular expressions\<close>

text \<open>
  \<open>Recursive\<close> takes the regular expression library as its first argument: the compile
  function, which returns an error or the \<open>MatchString\<close> predicate of the compiled pattern.
  Most properties below hold for every such function.

  To evaluate the package on concrete fragments, \<open>re_Compile\<close> models \<open>regexp.Compile\<close> on a
  part of its syntax: literal characters, the anchors \<open>^\<close> and \<open>$\<close> (begin and end of the
  text, no flag being set), alternation and groups. Alternation binds weakest, as in the
  library. A pattern with another metacharacter is outside the modelled syntax.
\<close>

datatype regex =
    Eps
  | Lit char
  | Bol
  | Eol
  | Cat regex regex
  | Alt regex regex

datatype parsed =
    Parsed regex
  | SyntaxError string
  | Unsupported

fun mk_cat :: "regex list \<Rightarrow> regex" where
  "mk_cat [] = Eps"
| "mk_cat [r] = r"
| "mk_cat (r # q # rs) = Cat r (mk_cat (q # rs))"

fun mk_alt :: "regex list \<Rightarrow> regex" where
  "mk_alt [] = Eps"
| "mk_alt [r] = r"
| "mk_alt (r # q # rs) = Alt r (mk_alt (q # rs))"

text \<open>
  The parser reads the pattern from left to right. \<open>alts\<close> are the finished alternatives of
  the group being read and \<open>cur\<close> the pieces of its current alternative, both latest first;
  \<open>stk\<close> holds the same for the enclosing groups.
\<close>

definition close_group :: "regex list \<Rightarrow> regex list \<Rightarrow> regex" where
  "close_group alts cur = mk_alt (rev (mk_cat (rev cur) # alts))"

fun parse :: "(regex list \<times> regex list) list \<Rightarrow> regex list \<Rightarrow> regex list \<Rightarrow> string \<Rightarrow> parsed" where
  "parse stk alts cur [] =
     (if stk = [] then Parsed (close_group alts cur)
      else SyntaxError ''missing closing )'')"
| "parse stk alts cur (c # cs) =
     (if c = CHR ''('' then parse ((alts, cur) # stk) [] [] cs
      else if c = CHR '')'' then
        (case stk of
           [] \<Rightarrow> SyntaxError ''unexpected )''
         | (alts', cur') # stk' \<Rightarrow> parse stk' alts' (close_group alts cur # cur') cs)
      else if c = CHR ''|'' then parse stk (mk_cat (rev cur) # alts) [] cs
      else if c = CHR ''^'' then parse stk alts (Bol # cur) cs
      else if c = CHR ''$'' then parse stk alts (Eol # cur) cs
      else if c = CHR 0x5C \<or> c \<in> set ''.+*?[]{}'' then Unsupported
      else parse stk alts (Lit c # cur) cs)"

text \<open>
  \<open>ends r s i\<close> lists the positions where a match of \<open>r\<close> that starts at position \<open>i\<close> of the
  text \<open>s\<close> can end. \<open>MatchString\<close> reports whether the text contains any match; \<open>FullMatch\<close>
  whether the whole text is one.
\<close>

fun ends :: "regex \<Rightarrow> string \<Rightarrow> nat \<Rightarrow> nat list" where
  "ends Eps s i = [i]"
| "ends (Lit c) s i = (if i < length s \<and> s ! i = c then [Suc i] else [])"
| "ends Bol s i = (if i = 0 then [i] else [])"
| "ends Eol s i = (if i = length s then [i] else [])"
| "ends (Cat a b) s i = concat (map (ends b s) (ends a s i))"
| "ends (Alt a b) s i = ends a s i @ ends b s i"

definition MatchString :: "regex \<Rightarrow> string \<Rightarrow> bool" where
  "MatchString r s = list_ex (\<lambda>i. ends r s i \<noteq> []) [0..<Suc (length s)]"

definition FullMatch :: "regex \<Rightarrow> string \<Rightarrow> bool" where
  "FullMatch r s = (length s \<in> set (ends r s 0))"

definition re_Compile :: "string \<Rightarrow> error + (string \<Rightarrow> bool)" where
  "re_Compile expr =
     (case parse [] [] [] expr of
        Parsed r \<Rightarrow> Inr (MatchString r)
      | SyntaxError e \<Rightarrow> Inl (RegexpError e)
      | Unsupported \<Rightarrow> Inl (RegexpError ''outside the modelled syntax''))"

subsection \<open>What \<open>os.ReadDir\<close> returns\<close>

text \<open>
  \<open>os.ReadDir\<close> returns the entries of a directory sorted by filename. A filename is not
  empty and holds no separator, and no two entries of a directory share a name. \<open>listing_ok\<close>
  says so of one listing, \<open>tree_ok\<close> of a listing and of every listing beneath it.
\<close>

definition valid_name :: "string \<Rightarrow> bool" where
  "valid_name nm = (nm \<noteq> [] \<and> CHR ''/'' \<notin> set nm)"

definition listing_ok :: "entry list \<Rightarrow> bool" where
  "listing_ok ds = (sorted_wrt (<) (map Name ds) \<and> list_all valid_name (map Name ds))"

fun entry_ok :: "entry \<Rightarrow> bool" where
  "entry_ok (File nm) = True"
| "entry_ok (Special nm) = True"
| "entry_ok (Dir nm sub) =
     (sorted_wrt (<) (map Name sub) \<and> list_all valid_name (map Name sub) \<and> list_all entry_ok sub)"

definition tree_ok :: "entry list \<Rightarrow> bool" where
  "tree_ok ds = (listing_ok ds \<and> list_all entry_ok ds)"

text \<open>The relative paths of the directories in and beneath a listing at \<open>prefix\<close>.\<close>

fun dir_paths :: "path \<Rightarrow> entry list \<Rightarrow> path list" where
  "dir_paths prefix [] = []"
| "dir_paths prefix (File nm # ds) = dir_paths prefix ds"
| "dir_paths prefix (Special nm # ds) = dir_paths prefix ds"
| "dir_paths prefix (Dir nm sub # ds) =
     Join prefix nm # dir_paths (Join prefix nm) sub @ dir_paths prefix ds"

text \<open>The relative path \<open>p\<close> lies beneath the directory with the relative path \<open>d\<close>.\<close>

definition beneath :: "path \<Rightarrow> path \<Rightarrow> bool" where
  "beneath d p = (\<exists>q. p = d @ ''/'' @ q)"

subsection \<open>Modification times in a store\<close>

text \<open>The file at \<open>q\<close> exists and carries the modification time \<open>m\<close>.\<close>

definition has_mtime :: "fsys \<Rightarrow> path \<Rightarrow> time \<Rightarrow> bool" where
  "has_mtime fs q m = (case fs_files fs q of None \<Rightarrow> False | Some f \<Rightarrow> f_modTime f = m)"

text \<open>
  No queued path is the temporary path \<open>name.gz~\<close> of a queued path: the tree holds no
  leftover temporary file next to its source.
\<close>

definition no_stale_tmp :: "path \<Rightarrow> string list \<Rightarrow> bool" where
  "no_stale_tmp root items =
     list_all (\<lambda>s. list_all (\<lambda>s'. Join root s' \<noteq> Join root s @ ''.gz~'') items) items"

subsection \<open>An encoder and stores to run the model on\<close>

text \<open>
  A run-length encoder, as an example of an encoder: it writes a run of equal bytes as the
  byte and the length of the run (at most 255), a run at a time; \<open>Close\<close> writes the last run.
\<close>

fun rle_byte :: "(byte \<times> nat) option \<times> byte list list \<Rightarrow> byte \<Rightarrow> (byte \<times> nat) option \<times> byte list list" where
  "rle_byte (None, ws) b = (Some (b, 1), ws)"
| "rle_byte (Some (a, c), ws) b =
     (if a = b \<and> c < 255 then (Some (a, Suc c), ws)
      else (Some (b, 1), ws @ [[a, of_nat c]]))"

definition rle :: "(byte \<times> nat) option encoder" where
  "rle = \<lparr>enc_init = None,
          enc_write = (\<lambda>z p. foldl rle_byte (z, []) p),
          enc_close = (\<lambda>z. case z of None \<Rightarrow> [] | Some (a, c) \<Rightarrow> [[a, of_nat c]])\<rparr>"

text \<open>
  A store with four files under \<open>/r\<close>: \<open>a\<close> shrinks under \<open>rle\<close> (6 bytes to 2), \<open>b\<close> grows
  while it is copied, \<open>c\<close> grows when the encoder is closed, and \<open>d\<close> keeps its size.
\<close>

definition files0 :: "path \<Rightarrow> osfile option" where
  "files0 =
     [''/r/a'' \<mapsto> \<lparr>f_data = [7, 7, 7, 7, 7, 7], f_modTime = 5, f_perm = 420\<rparr>,
      ''/r/b'' \<mapsto> \<lparr>f_data = [1, 2, 3], f_modTime = 5, f_perm = 420\<rparr>,
      ''/r/c'' \<mapsto> \<lparr>f_data = [1, 2], f_modTime = 9, f_perm = 420\<rparr>,
      ''/r/d'' \<mapsto> \<lparr>f_data = [7, 7], f_modTime = 5, f_perm = 420\<rparr>]"

definition fs0 :: fsys where
  "fs0 = \<lparr>fs_files = files0, fs_fault = (\<lambda>c. None), fs_clock = 100\<rparr>"

text \<open>The same store with one call made to fail.\<close>

definition failing :: "syscall \<Rightarrow> fsys" where
  "failing c = fs0\<lparr>fs_fault := (\<lambda>c'. if c' = c then Some ''injected'' else None)\<rparr>"

text \<open>
  A listing of \<open>/r\<close> for the store \<open>fs0\<close>, with a directory \<open>sub/ignored\<close> whose file \<open>e\<close> is not in
  the store (a call of \<open>IfSmallerBuffer\<close> for it would fail), and a schedule that hands the
  items to the goroutines in turn.
\<close>

definition tree0 :: "entry list" where
  "tree0 = [File ''a'', File ''b'', File ''c'', File ''d'', Dir ''sub'' [Dir ''ignored'' [File ''e'']]]"

definition sched0 :: schedule where
  "sched0 = \<lparr>s_take = (\<lambda>k. k), s_pub = []\<rparr>"

text \<open>
  A store and a listing with a file \<open>sub/f\<close> next to the directory \<open>sub/ignored\<close>, whose file
  \<open>e\<close> exists as well.
\<close>

definition store1 :: fsys where
  "store1 = \<lparr>fs_files =
            [''/r/a'' \<mapsto> \<lparr>f_data = [7, 7, 7, 7, 7, 7], f_modTime = 5, f_perm = 420\<rparr>,
             ''/r/sub/f'' \<mapsto> \<lparr>f_data = [3, 3, 3, 3], f_modTime = 5, f_perm = 420\<rparr>,
             ''/r/sub/ignored/e'' \<mapsto> \<lparr>f_data = [4, 4, 4, 4], f_modTime = 5, f_perm = 420\<rparr>],
          fs_fault = (\<lambda>c. None), fs_clock = 100\<rparr>"

definition listing1 :: "entry list" where
  "listing1 = [File ''a'', Dir ''sub'' [File ''f'', Dir ''ignored'' [File ''e'']]]"

section \<open>Properties\<close>

subsection \<open>The size budget\<close>

lemma write_all_err: "write_all l ps = (l', Some e) \<Longrightarrow> e = errSizeThresholdExceeded"
  by (induction ps arbitrary: l) (auto simp: Write_def Let_def split: if_splits)

lemma write_all_none_iff:
  "0 \<le> lw_n l \<Longrightarrow> snd (write_all l ps) = None \<longleftrightarrow> int (length (concat ps)) \<le> lw_n l"
  by (induction ps arbitrary: l) (auto simp: Write_def Let_def split: if_splits)

lemma write_all_ok:
  "write_all l ps = (l', None) \<Longrightarrow>
     lw_buf l' = lw_buf l @ concat ps \<and> lw_n l' = lw_n l - int (length (concat ps))"
  by (induction ps arbitrary: l) (auto simp: Write_def Let_def split: if_splits)

lemma write_all_stop:
  "0 \<le> lw_n l \<Longrightarrow> write_all l ps = (l', Some e) \<Longrightarrow>
     \<exists>k < length ps. lw_buf l' = lw_buf l @ concat (take (Suc k) ps)
        \<and> int (length (concat (take k ps))) \<le> lw_n l
        \<and> lw_n l < int (length (concat (take (Suc k) ps)))"
proof (induction ps arbitrary: l)
  case Nil
  then show ?case by simp
next
  case (Cons p ps)
  show ?case
  proof (cases "lw_n l - int (length p) < 0")
    case True
    with Cons.prems show ?thesis
      by (intro exI[of _ 0]) (auto simp: Write_def Let_def)
  next
    case False
    let ?l1 = "\<lparr>lw_buf = lw_buf l @ p, lw_n = lw_n l - int (length p)\<rparr>"
    from False Cons.prems have w: "write_all ?l1 ps = (l', Some e)"
      by (auto simp: Write_def Let_def)
    from False have "0 \<le> lw_n ?l1" by simp
    from Cons.IH[OF this w] obtain k where k: "k < length ps"
      "lw_buf l' = lw_buf ?l1 @ concat (take (Suc k) ps)"
      "int (length (concat (take k ps))) \<le> lw_n ?l1"
      "lw_n ?l1 < int (length (concat (take (Suc k) ps)))" by blast
    then show ?thesis
      by (intro exI[of _ "Suc k"]) auto
  qed
qed

text \<open>
  C3, as stated, fails. The claim lets compression abort as soon as the bytes written to the
  capped buffer reach the budget. \<open>Write\<close> compares the remaining budget with \<open>0\<close> by \<open><\<close>: with
  a budget of 3 bytes, the write that brings the buffer to exactly 3 bytes succeeds, an empty
  write after it succeeds as well, and only the fourth byte makes a write fail.
\<close>

theorem C3_reaching_the_budget_does_not_abort:
  "Write \<lparr>lw_buf = [], lw_n = 3\<rparr> [1, 2, 3] = (\<lparr>lw_buf = [1, 2, 3], lw_n = 0\<rparr>, 3, None)
   \<and> write_all \<lparr>lw_buf = [], lw_n = 3\<rparr> [[1, 2], [3], [], [4], [5]]
       = (\<lparr>lw_buf = [1, 2, 3, 4], lw_n = - 1\<rparr>, Some errSizeThresholdExceeded)"
  by (simp add: Write_def)

text \<open>
  C3, amended: while the encoder writes to the capped buffer, the writes succeed as long as
  the bytes written do not exceed the budget (reaching it exactly is accepted); the first
  write that takes the total above the budget fails with \<open>errSizeThresholdExceeded\<close>, and no
  write is made after it: the buffer then holds the slices up to and including that write.
\<close>

theorem C3_abort_when_budget_exceeded:
  assumes "0 \<le> lw_n l"
  shows "(snd (write_all l ps) = None \<longleftrightarrow> int (length (concat ps)) \<le> lw_n l)
       \<and> (snd (write_all l ps) = None \<or> snd (write_all l ps) = Some errSizeThresholdExceeded)
       \<and> (int (length (concat ps)) \<le> lw_n l \<or>
            (\<exists>k < length ps.
               lw_buf (fst (write_all l ps)) = lw_buf l @ concat (take (Suc k) ps)
               \<and> int (length (concat (take k ps))) \<le> lw_n l
               \<and> lw_n l < int (length (concat (take (Suc k) ps)))))"
proof -
  obtain l' r where w: "write_all l ps = (l', r)" by (cases "write_all l ps")
  have a: "snd (write_all l ps) = None \<longleftrightarrow> int (length (concat ps)) \<le> lw_n l"
    using assms by (rule write_all_none_iff)
  have b: "snd (write_all l ps) = None \<or> snd (write_all l ps) = Some errSizeThresholdExceeded"
    using w write_all_err by (cases r) auto
  have c: "int (length (concat ps)) \<le> lw_n l \<or>
            (\<exists>k < length ps.
               lw_buf (fst (write_all l ps)) = lw_buf l @ concat (take (Suc k) ps)
               \<and> int (length (concat (take k ps))) \<le> lw_n l
               \<and> lw_n l < int (length (concat (take (Suc k) ps))))"
  proof (cases r)
    case None
    with a w show ?thesis by simp
  next
    case (Some e)
    with w write_all_stop[OF assms, of ps l' e] show ?thesis by simp
  qed
  from a b c show ?thesis by blast
qed

theorem C3_abort_when_budget_exceeded_witness:
  "(0::int) \<le> lw_n \<lparr>lw_buf = [], lw_n = 3\<rparr>
   \<and> snd (write_all \<lparr>lw_buf = [], lw_n = 3\<rparr> [[1, 2], [3], [], [4], [5]])
       = Some errSizeThresholdExceeded
   \<and> \<not> int (length (concat [[1, 2], [3], [], [4], [5 :: byte]])) \<le> 3"
  using C3_abort_when_budget_exceeded [of "\<lparr>lw_buf = [], lw_n = 3\<rparr>" "[[1, 2], [3], [], [4], [5]]"]
  by (simp add: Write_def)

subsection \<open>The conditional compressor, stage by stage\<close>

text \<open>What \<open>IfSmallerBuffer\<close> returns, by the first stage that ends the call.\<close>

lemma ISB_stat_err:
  "os_Stat fs path = Inl e \<Longrightarrow> IfSmallerBuffer enc fs path m out buf = (fs, out, False, Some e)"
  by (simp add: IfSmallerBuffer_def)

lemma ISB_mtime_err:
  "os_Stat fs path = Inr s \<Longrightarrow> set_mtime fs path m s = Inl e \<Longrightarrow>
   IfSmallerBuffer enc fs path m out buf = (fs, out, False, Some e)"
  by (simp add: IfSmallerBuffer_def)

lemma ISB_open_err:
  "os_Stat fs path = Inr s \<Longrightarrow> set_mtime fs path m s = Inr fs1 \<Longrightarrow> os_Open fs1 path = Inl e \<Longrightarrow>
   IfSmallerBuffer enc fs path m out buf = (fs1, out, False, Some e)"
  by (simp add: IfSmallerBuffer_def)

lemma ISB_copy_err:
  "os_Stat fs path = Inr s \<Longrightarrow> set_mtime fs path m s = Inr fs1 \<Longrightarrow> os_Open fs1 path = Inr f \<Longrightarrow>
   copy_file enc fs1 path buf f s = (z1, w1, n, Some e) \<Longrightarrow>
   IfSmallerBuffer enc fs path m out buf =
     (if e = errSizeThresholdExceeded then (fs1, lw_buf w1, False, None)
      else (fs1, lw_buf (fst (gz_Close enc z1 w1)), False, Some e))"
  by (simp add: IfSmallerBuffer_def)

lemma ISB_close_err:
  "os_Stat fs path = Inr s \<Longrightarrow> set_mtime fs path m s = Inr fs1 \<Longrightarrow> os_Open fs1 path = Inr f \<Longrightarrow>
   copy_file enc fs1 path buf f s = (z1, w1, n, None) \<Longrightarrow> gz_Close enc z1 w1 = (w2, Some e) \<Longrightarrow>
   IfSmallerBuffer enc fs path m out buf =
     (if e = errSizeThresholdExceeded then (fs1, lw_buf w2, False, None)
      else (fs1, lw_buf w2, False, Some e))"
  by (simp add: IfSmallerBuffer_def)

lemma ISB_not_smaller:
  "os_Stat fs path = Inr s \<Longrightarrow> set_mtime fs path m s = Inr fs1 \<Longrightarrow> os_Open fs1 path = Inr f \<Longrightarrow>
   copy_file enc fs1 path buf f s = (z1, w1, n, None) \<Longrightarrow> gz_Close enc z1 w1 = (w2, None) \<Longrightarrow>
   n \<le> int (length (lw_buf w2)) \<Longrightarrow>
   IfSmallerBuffer enc fs path m out buf = (fs1, lw_buf w2, False, None)"
  by (simp add: IfSmallerBuffer_def)

lemma ISB_write_err:
  "os_Stat fs path = Inr s \<Longrightarrow> set_mtime fs path m s = Inr fs1 \<Longrightarrow> os_Open fs1 path = Inr f \<Longrightarrow>
   copy_file enc fs1 path buf f s = (z1, w1, n, None) \<Longrightarrow> gz_Close enc z1 w1 = (w2, None) \<Longrightarrow>
   int (length (lw_buf w2)) < n \<Longrightarrow>
   os_WriteFile fs1 (path @ ''.gz~'') (lw_buf w2) (st_perm s) = Inl e \<Longrightarrow>
   IfSmallerBuffer enc fs path m out buf = (fs1, lw_buf w2, False, Some e)"
  by (simp add: IfSmallerBuffer_def)

lemma ISB_chtimes_err:
  "os_Stat fs path = Inr s \<Longrightarrow> set_mtime fs path m s = Inr fs1 \<Longrightarrow> os_Open fs1 path = Inr f \<Longrightarrow>
   copy_file enc fs1 path buf f s = (z1, w1, n, None) \<Longrightarrow> gz_Close enc z1 w1 = (w2, None) \<Longrightarrow>
   int (length (lw_buf w2)) < n \<Longrightarrow>
   os_WriteFile fs1 (path @ ''.gz~'') (lw_buf w2) (st_perm s) = Inr fs2 \<Longrightarrow>
   os_Chtimes fs2 (path @ ''.gz~'') m = Inl e \<Longrightarrow>
   IfSmallerBuffer enc fs path m out buf = (fs2, lw_buf w2, False, Some e)"
  by (simp add: IfSmallerBuffer_def)

lemma ISB_rename_err:
  "os_Stat fs path = Inr s \<Longrightarrow> set_mtime fs path m s = Inr fs1 \<Longrightarrow> os_Open fs1 path = Inr f \<Longrightarrow>
   copy_file enc fs1 path buf f s = (z1, w1, n, None) \<Longrightarrow> gz_Close enc z1 w1 = (w2, None) \<Longrightarrow>
   int (length (lw_buf w2)) < n \<Longrightarrow>
   os_WriteFile fs1 (path @ ''.gz~'') (lw_buf w2) (st_perm s) = Inr fs2 \<Longrightarrow>
   os_Chtimes fs2 (path @ ''.gz~'') m = Inr fs3 \<Longrightarrow>
   os_Rename fs3 (path @ ''.gz~'') (path @ ''.gz'') = Inl e \<Longrightarrow>
   IfSmallerBuffer enc fs path m out buf = (fs3, lw_buf w2, False, Some e)"
  by (simp add: IfSmallerBuffer_def)

lemma ISB_done:
  "os_Stat fs path = Inr s \<Longrightarrow> set_mtime fs path m s = Inr fs1 \<Longrightarrow> os_Open fs1 path = Inr f \<Longrightarrow>
   copy_file enc fs1 path buf f s = (z1, w1, n, None) \<Longrightarrow> gz_Close enc z1 w1 = (w2, None) \<Longrightarrow>
   int (length (lw_buf w2)) < n \<Longrightarrow>
   os_WriteFile fs1 (path @ ''.gz~'') (lw_buf w2) (st_perm s) = Inr fs2 \<Longrightarrow>
   os_Chtimes fs2 (path @ ''.gz~'') m = Inr fs3 \<Longrightarrow>
   os_Rename fs3 (path @ ''.gz~'') (path @ ''.gz'') = Inr fs4 \<Longrightarrow>
   IfSmallerBuffer enc fs path m out buf = (fs4, lw_buf w2, True, None)"
  by (simp add: IfSmallerBuffer_def)

lemma gz_Close_err: "gz_Close enc z w = (w', Some e) \<Longrightarrow> e = errSizeThresholdExceeded"
  unfolding gz_Close_def by (rule write_all_err)

lemma ISB_cases:
  fixes enc :: "'z encoder"
  obtains
    (stat_err) e where "os_Stat fs path = Inl e"
      "IfSmallerBuffer enc fs path m out buf = (fs, out, False, Some e)"
  | (mtime_err) s e where "os_Stat fs path = Inr s" "set_mtime fs path m s = Inl e"
      "IfSmallerBuffer enc fs path m out buf = (fs, out, False, Some e)"
  | (open_err) s fs1 e where "os_Stat fs path = Inr s" "set_mtime fs path m s = Inr fs1"
      "os_Open fs1 path = Inl e"
      "IfSmallerBuffer enc fs path m out buf = (fs1, out, False, Some e)"
  | (copy_budget) s fs1 f z1 w1 n where "os_Stat fs path = Inr s" "set_mtime fs path m s = Inr fs1"
      "os_Open fs1 path = Inr f"
      "copy_file enc fs1 path buf f s = (z1, w1, n, Some errSizeThresholdExceeded)"
      "IfSmallerBuffer enc fs path m out buf = (fs1, lw_buf w1, False, None)"
  | (read_err) s fs1 f z1 w1 n e where "os_Stat fs path = Inr s" "set_mtime fs path m s = Inr fs1"
      "os_Open fs1 path = Inr f"
      "copy_file enc fs1 path buf f s = (z1, w1, n, Some e)" "e \<noteq> errSizeThresholdExceeded"
      "IfSmallerBuffer enc fs path m out buf = (fs1, lw_buf (fst (gz_Close enc z1 w1)), False, Some e)"
  | (close_budget) s fs1 f z1 w1 n w2 where "os_Stat fs path = Inr s" "set_mtime fs path m s = Inr fs1"
      "os_Open fs1 path = Inr f"
      "copy_file enc fs1 path buf f s = (z1, w1, n, None)"
      "gz_Close enc z1 w1 = (w2, Some errSizeThresholdExceeded)"
      "IfSmallerBuffer enc fs path m out buf = (fs1, lw_buf w2, False, None)"
  | (not_smaller) s fs1 f z1 w1 n w2 where "os_Stat fs path = Inr s" "set_mtime fs path m s = Inr fs1"
      "os_Open fs1 path = Inr f"
      "copy_file enc fs1 path buf f s = (z1, w1, n, None)"
      "gz_Close enc z1 w1 = (w2, None)" "n \<le> int (length (lw_buf w2))"
      "IfSmallerBuffer enc fs path m out buf = (fs1, lw_buf w2, False, None)"
  | (write_err) s fs1 f z1 w1 n w2 e where "os_Stat fs path = Inr s" "set_mtime fs path m s = Inr fs1"
      "os_Open fs1 path = Inr f"
      "copy_file enc fs1 path buf f s = (z1, w1, n, None)"
      "gz_Close enc z1 w1 = (w2, None)" "int (length (lw_buf w2)) < n"
      "os_WriteFile fs1 (path @ ''.gz~'') (lw_buf w2) (st_perm s) = Inl e"
      "IfSmallerBuffer enc fs path m out buf = (fs1, lw_buf w2, False, Some e)"
  | (chtimes_err) s fs1 f z1 w1 n w2 fs2 e where "os_Stat fs path = Inr s" "set_mtime fs path m s = Inr fs1"
      "os_Open fs1 path = Inr f"
      "copy_file enc fs1 path buf f s = (z1, w1, n, None)"
      "gz_Close enc z1 w1 = (w2, None)" "int (length (lw_buf w2)) < n"
      "os_WriteFile fs1 (path @ ''.gz~'') (lw_buf w2) (st_perm s) = Inr fs2"
      "os_Chtimes fs2 (path @ ''.gz~'') m = Inl e"
      "IfSmallerBuffer enc fs path m out buf = (fs2, lw_buf w2, False, Some e)"
  | (rename_err) s fs1 f z1 w1 n w2 fs2 fs3 e where "os_Stat fs path = Inr s" "set_mtime fs path m s = Inr fs1"
      "os_Open fs1 path = Inr f"
      "copy_file enc fs1 path buf f s = (z1, w1, n, None)"
      "gz_Close enc z1 w1 = (w2, None)" "int (length (lw_buf w2)) < n"
      "os_WriteFile fs1 (path @ ''.gz~'') (lw_buf w2) (st_perm s) = Inr fs2"
      "os_Chtimes fs2 (path @ ''.gz~'') m = Inr fs3"
      "os_Rename fs3 (path @ ''.gz~'') (path @ ''.gz'') = Inl e"
      "IfSmallerBuffer enc fs path m out buf = (fs3, lw_buf w2, False, Some e)"
  | (renamed) s fs1 f z1 w1 n w2 fs2 fs3 fs4 where "os_Stat fs path = Inr s" "set_mtime fs path m s = Inr fs1"
      "os_Open fs1 path = Inr f"
      "copy_file enc fs1 path buf f s = (z1, w1, n, None)"
      "gz_Close enc z1 w1 = (w2, None)" "int (length (lw_buf w2)) < n"
      "os_WriteFile fs1 (path @ ''.gz~'') (lw_buf w2) (st_perm s) = Inr fs2"
      "os_Chtimes fs2 (path @ ''.gz~'') m = Inr fs3"
      "os_Rename fs3 (path @ ''.gz~'') (path @ ''.gz'') = Inr fs4"
      "IfSmallerBuffer enc fs path m out buf = (fs4, lw_buf w2, True, None)"
proof (cases "os_Stat fs path")
  case (Inl e)
  then show ?thesis using stat_err ISB_stat_err by blast
next
  case s: (Inr s)
  show ?thesis
  proof (cases "set_mtime fs path m s")
    case (Inl e)
    then show ?thesis using mtime_err ISB_mtime_err s by blast
  next
    case t: (Inr fs1)
    show ?thesis
    proof (cases "os_Open fs1 path")
      case (Inl e)
      then show ?thesis using open_err ISB_open_err s t by blast
    next
      case f: (Inr f)
      obtain z1 w1 n r where c: "copy_file enc fs1 path buf f s = (z1, w1, n, r)"
        by (cases "copy_file enc fs1 path buf f s")
      show ?thesis
      proof (cases r)
        case (Some e)
        show ?thesis
        proof (cases "e = errSizeThresholdExceeded")
          case True
          then show ?thesis
            using copy_budget[OF s t f] ISB_copy_err[OF s t f, of enc buf z1 w1 n e out] c Some
            by simp
        next
          case False
          then show ?thesis
            using read_err[OF s t f] ISB_copy_err[OF s t f, of enc buf z1 w1 n e out] c Some
            by simp
        qed
      next
        case None
        note c = c[unfolded None]
        obtain w2 r2 where g: "gz_Close enc z1 w1 = (w2, r2)" by (cases "gz_Close enc z1 w1")
        show ?thesis
        proof (cases r2)
          case (Some e)
          with g have "e = errSizeThresholdExceeded" by (auto dest: gz_Close_err)
          then show ?thesis
            using close_budget[OF s t f c] ISB_close_err[OF s t f c, of w2 e out] g Some by simp
        next
          case None
          note g = g[unfolded None]
          show ?thesis
          proof (cases "n \<le> int (length (lw_buf w2))")
            case True
            then show ?thesis using not_smaller[OF s t f c g] ISB_not_smaller[OF s t f c g] by blast
          next
            case False
            then have lt: "int (length (lw_buf w2)) < n" by simp
            show ?thesis
            proof (cases "os_WriteFile fs1 (path @ ''.gz~'') (lw_buf w2) (st_perm s)")
              case (Inl e)
              then show ?thesis using write_err[OF s t f c g lt] ISB_write_err[OF s t f c g lt] by blast
            next
              case w: (Inr fs2)
              show ?thesis
              proof (cases "os_Chtimes fs2 (path @ ''.gz~'') m")
                case (Inl e)
                then show ?thesis
                  using chtimes_err[OF s t f c g lt w] ISB_chtimes_err[OF s t f c g lt w] by blast
              next
                case ch: (Inr fs3)
                show ?thesis
                proof (cases "os_Rename fs3 (path @ ''.gz~'') (path @ ''.gz'')")
                  case (Inl e)
                  then show ?thesis
                    using rename_err[OF s t f c g lt w ch] ISB_rename_err[OF s t f c g lt w ch] by blast
                next
                  case (Inr fs4)
                  then show ?thesis
                    using renamed[OF s t f c g lt w ch] ISB_done[OF s t f c g lt w ch] by blast
                qed
              qed
            qed
          qed
        qed
      qed
    qed
  qed
qed

subsection \<open>Effects of the calls on the store\<close>

lemma os_Stat_Inr:
  "os_Stat fs p = Inr s \<Longrightarrow>
   \<exists>f. fs_files fs p = Some f \<and> st_size s = length (f_data f) \<and> st_modTime s = f_modTime f
       \<and> st_perm s = f_perm f"
  by (auto simp: os_Stat_def split: option.splits)

lemma UnixNano_storable: "storable t \<Longrightarrow> UnixNano t = t"
  unfolding storable_def UnixNano_def
  by (simp add: sint_sbintrunc' signed_take_bit_int_eq_self)

lemma storable_9: "storable 9"
  by (simp add: storable_def zero_time_def)

lemma os_Chtimes_Inr:
  "os_Chtimes fs p m = Inr fs' \<Longrightarrow>
   \<exists>f t. fs_files fs p = Some f \<and> fs' = fs\<lparr>fs_files := (fs_files fs)(p \<mapsto> f\<lparr>f_modTime := t\<rparr>)\<rparr>
        \<and> (storable m \<longrightarrow> t = m)"
proof -
  assume a: "os_Chtimes fs p m = Inr fs'"
  then obtain f where f: "fs_files fs p = Some f"
    by (auto simp: os_Chtimes_def split: option.splits)
  show ?thesis
  proof (cases "m = zero_time")
    case True
    with a f have "fs' = fs" by (simp add: os_Chtimes_def split: option.splits)
    moreover from f have "(fs_files fs)(p \<mapsto> f\<lparr>f_modTime := f_modTime f\<rparr>) = fs_files fs"
      by (simp add: map_upd_triv)
    ultimately have "fs' = fs\<lparr>fs_files := (fs_files fs)(p \<mapsto> f\<lparr>f_modTime := f_modTime f\<rparr>)\<rparr>"
      by simp
    with f True show ?thesis
      by (intro exI[of _ f] exI[of _ "f_modTime f"]) (simp add: storable_def)
  next
    case False
    with a f have "fs' = fs\<lparr>fs_files := (fs_files fs)(p \<mapsto> f\<lparr>f_modTime := UnixNano m\<rparr>)\<rparr>"
      by (simp add: os_Chtimes_def split: option.splits)
    with f show ?thesis
      by (intro exI[of _ f] exI[of _ "UnixNano m"]) (simp add: UnixNano_storable)
  qed
qed

lemma set_mtime_Inr:
  assumes "os_Stat fs p = Inr s" "set_mtime fs p m s = Inr fs1"
  shows "\<exists>f t. fs_files fs p = Some f
           \<and> fs1 = fs\<lparr>fs_files := (fs_files fs)(p \<mapsto> f\<lparr>f_modTime := t\<rparr>)\<rparr>
           \<and> (storable m \<longrightarrow> t = m)"
proof (cases "st_modTime s = m")
  case True
  from os_Stat_Inr[OF assms(1)] obtain f where f: "fs_files fs p = Some f" "st_modTime s = f_modTime f"
    by blast
  with True have "f\<lparr>f_modTime := m\<rparr> = f" by simp
  moreover from True assms(2) have "fs1 = fs" by (simp add: set_mtime_def)
  moreover from f have "(fs_files fs)(p \<mapsto> f) = fs_files fs" by (simp add: map_upd_triv)
  ultimately show ?thesis using f by (intro exI[of _ f] exI[of _ m]) simp
next
  case False
  with assms(2) have "os_Chtimes fs p m = Inr fs1" by (simp add: set_mtime_def)
  then show ?thesis by (rule os_Chtimes_Inr)
qed

lemma os_Open_Inr:
  "os_Open fs p = Inr d \<Longrightarrow> \<exists>f. fs_files fs p = Some f \<and> d = f_data f"
  by (auto simp: os_Open_def split: option.splits)

lemma os_WriteFile_Inr:
  "os_WriteFile fs p d perm = Inr fs' \<Longrightarrow>
   \<exists>g. fs' = fs\<lparr>fs_files := (fs_files fs)(p \<mapsto> g)\<rparr> \<and> f_data g = d \<and> f_modTime g = fs_clock fs"
  by (auto simp: os_WriteFile_def Let_def split: option.splits)

lemma os_Rename_Inr:
  "os_Rename fs src dst = Inr fs' \<Longrightarrow>
   \<exists>f. fs_files fs src = Some f \<and> fs' = fs\<lparr>fs_files := ((fs_files fs)(src := None))(dst \<mapsto> f)\<rparr>"
  by (auto simp: os_Rename_def split: option.splits)

lemma CopyBuffer_written:
  "CopyBuffer enc rf k cs z l w = (z', l', n, None) \<Longrightarrow> n = w + int (length (concat cs))"
proof (induction cs arbitrary: k z l w)
  case Nil
  then show ?case by simp
next
  case (Cons c cs)
  from Cons.prems obtain z1 l1 where
    "CopyBuffer enc rf (Suc k) cs z1 l1 (w + int (length c)) = (z', l', n, None)"
    by (auto simp: gz_Write_def split: option.splits prod.splits)
  from Cons.IH[OF this] show ?case by simp
qed

lemma chop_Nil [simp]: "chop k [] = []"
  by (subst chop.simps) simp

lemma chop_0 [simp]: "chop 0 xs = []"
  by (subst chop.simps) simp

lemma chop_Cons: "0 < k \<Longrightarrow> chop k (x # xs) = take k (x # xs) # chop k (drop k (x # xs))"
  by (subst chop.simps) simp

lemma concat_chop: "0 < k \<Longrightarrow> concat (chop k xs) = xs"
proof (induction k xs rule: chop.induct)
  case (1 k xs)
  show ?case
  proof (cases "xs = []")
    case True
    then show ?thesis by simp
  next
    case False
    with 1 have "concat (chop k (drop k xs)) = drop k xs" by simp
    moreover from False 1(2) have "chop k xs = take k xs # chop k (drop k xs)"
      by (subst chop.simps) simp
    ultimately show ?thesis by simp
  qed
qed

lemma length_concat_chop: "length (concat (chop k xs)) \<le> length xs"
  by (cases "k = 0") (simp_all add: concat_chop)

lemma copy_file_written:
  "copy_file enc fs path buf f s = (z1, w1, n, None) \<Longrightarrow> n = int (length (concat (chop (buf_len buf) f)))"
  unfolding copy_file_def by (drule CopyBuffer_written) simp

text \<open>The store after a call that produced an artifact.\<close>

lemma ISB_done_store:
  assumes s: "os_Stat fs path = Inr s" and t: "set_mtime fs path m s = Inr fs1"
    and w: "os_WriteFile fs1 (path @ ''.gz~'') d (st_perm s) = Inr fs2"
    and c: "os_Chtimes fs2 (path @ ''.gz~'') m = Inr fs3"
    and r: "os_Rename fs3 (path @ ''.gz~'') (path @ ''.gz'') = Inr fs4"
  shows "\<exists>f g t. fs_files fs path = Some f
           \<and> fs_files fs4 path = Some (f\<lparr>f_modTime := t\<rparr>)
           \<and> fs_files fs4 (path @ ''.gz'') = Some g \<and> f_data g = d
           \<and> (storable m \<longrightarrow> t = m \<and> f_modTime g = m)
           \<and> fs_files fs4 (path @ ''.gz~'') = None
           \<and> (\<forall>q. q \<noteq> path \<and> q \<noteq> path @ ''.gz'' \<and> q \<noteq> path @ ''.gz~'' \<longrightarrow> fs_files fs4 q = fs_files fs q)"
proof -
  from set_mtime_Inr[OF s t] obtain f t where f: "fs_files fs path = Some f"
    "fs1 = fs\<lparr>fs_files := (fs_files fs)(path \<mapsto> f\<lparr>f_modTime := t\<rparr>)\<rparr>"
    "storable m \<longrightarrow> t = m" by blast
  from os_WriteFile_Inr[OF w] obtain g where g: "fs2 = fs1\<lparr>fs_files := (fs_files fs1)(path @ ''.gz~'' \<mapsto> g)\<rparr>"
    "f_data g = d" by blast
  from os_Chtimes_Inr[OF c] obtain g' t' where g': "fs_files fs2 (path @ ''.gz~'') = Some g'"
    "fs3 = fs2\<lparr>fs_files := (fs_files fs2)(path @ ''.gz~'' \<mapsto> g'\<lparr>f_modTime := t'\<rparr>)\<rparr>"
    "storable m \<longrightarrow> t' = m" by blast
  from os_Rename_Inr[OF r] obtain h where h: "fs_files fs3 (path @ ''.gz~'') = Some h"
    "fs4 = fs3\<lparr>fs_files := ((fs_files fs3)(path @ ''.gz~'' := None))(path @ ''.gz'' \<mapsto> h)\<rparr>" by blast
  from g g' have gg: "g' = g" by simp
  have f2: "fs_files fs2 = (fs_files fs)(path \<mapsto> f\<lparr>f_modTime := t\<rparr>, path @ ''.gz~'' \<mapsto> g)"
    by (simp add: g(1) f(2))
  have f3: "fs_files fs3 = (fs_files fs2)(path @ ''.gz~'' \<mapsto> g\<lparr>f_modTime := t'\<rparr>)"
    by (simp add: g'(2) gg)
  from h(1) f3 have hh: "h = g\<lparr>f_modTime := t'\<rparr>" by simp
  have f4: "fs_files fs4 = ((fs_files fs3)(path @ ''.gz~'' := None))(path @ ''.gz'' \<mapsto> g\<lparr>f_modTime := t'\<rparr>)"
    by (simp add: h(2) hh)
  have "fs_files fs4 path = Some (f\<lparr>f_modTime := t\<rparr>)"
    by (simp add: f4 f3 f2)
  moreover have "fs_files fs4 (path @ ''.gz'') = Some (g\<lparr>f_modTime := t'\<rparr>)"
    by (simp add: f4)
  moreover have "fs_files fs4 (path @ ''.gz~'') = None"
    by (simp add: f4)
  moreover have "\<forall>q. q \<noteq> path \<and> q \<noteq> path @ ''.gz'' \<and> q \<noteq> path @ ''.gz~'' \<longrightarrow> fs_files fs4 q = fs_files fs q"
    by (simp add: f4 f3 f2)
  ultimately show ?thesis
    using f(1,3) g(2) g'(3)
    by (intro exI[of _ f] exI[of _ "g\<lparr>f_modTime := t'\<rparr>"] exI[of _ t]) simp
qed

subsection \<open>Evaluating the model\<close>

lemma chop_short: "xs \<noteq> [] \<Longrightarrow> length xs \<le> k \<Longrightarrow> chop k xs = [xs]"
  by (subst chop.simps, cases xs) auto

lemmas ev = os_Stat_def os_Chtimes_def os_Open_def os_WriteFile_def os_Rename_def set_mtime_def
  copy_file_def gz_Write_def gz_Close_def Write_def buf_len_def chop_short rle_def fs0_def files0_def
  failing_def

lemma ISB_source_mtime:
  fixes enc :: "'z encoder"
  assumes s: "os_Stat fs path = Inr s" and t: "set_mtime fs path m s = Inr fs1"
    and r: "IfSmallerBuffer enc fs path m out buf = (fs', out', changed, err)"
  shows "\<exists>f t. fs_files fs path = Some f \<and> fs_files fs' path = Some (f\<lparr>f_modTime := t\<rparr>)
           \<and> (storable m \<longrightarrow> t = m)"
proof -
  from set_mtime_Inr[OF s t] obtain f t where f: "fs_files fs path = Some f"
    "fs1 = fs\<lparr>fs_files := (fs_files fs)(path \<mapsto> f\<lparr>f_modTime := t\<rparr>)\<rparr>"
    "storable m \<longrightarrow> t = m" by blast
  then have f1: "fs_files fs1 path = Some (f\<lparr>f_modTime := t\<rparr>)" by simp
  have w: "fs_files fs2 path = Some (f\<lparr>f_modTime := t\<rparr>)"
    if "os_WriteFile fs1 (path @ ''.gz~'') d p = Inr fs2" for d p fs2
    using os_WriteFile_Inr[OF that] f1 by auto
  have c: "fs_files fs3 path = Some (f\<lparr>f_modTime := t\<rparr>)"
    if "os_WriteFile fs1 (path @ ''.gz~'') d p = Inr fs2" "os_Chtimes fs2 (path @ ''.gz~'') m = Inr fs3"
    for d p fs2 fs3
    using os_Chtimes_Inr[OF that(2)] w[OF that(1)] by auto
  have n: "fs_files fs4 path = Some (f\<lparr>f_modTime := t\<rparr>)"
    if "os_WriteFile fs1 (path @ ''.gz~'') d p = Inr fs2" "os_Chtimes fs2 (path @ ''.gz~'') m = Inr fs3"
      "os_Rename fs3 (path @ ''.gz~'') (path @ ''.gz'') = Inr fs4"
    for d p fs2 fs3 fs4
    using os_Rename_Inr[OF that(3)] c[OF that(1,2)] by auto
  have "fs_files fs' path = Some (f\<lparr>f_modTime := t\<rparr>)"
    by (cases rule: ISB_cases[of fs path enc m out buf]) (use s t r f1 w c n in \<open>auto\<close>)
  with f(1,3) show ?thesis by blast
qed

subsection \<open>The size guarantee\<close>

text \<open>
  C1: when \<open>IfSmallerBuffer\<close> reports a change, the artifact \<open>path.gz\<close> holds the compressed
  buffer, and that buffer is strictly shorter than the number \<open>n\<close> of bytes read from the
  source, which is at most the length of the source. When the encoder finishes and the
  compressed buffer is not shorter than \<open>n\<close>, the call returns \<open>(false, nil)\<close> and neither
  \<open>path.gz\<close> nor \<open>path.gz~\<close> is written.
\<close>

theorem C1_artifact_is_smaller:
  fixes enc :: "'z encoder"
  shows "(IfSmallerBuffer enc fs path m out buf = (fs', out', True, err) \<longrightarrow>
            (\<exists>f g s fs1 z1 w1 n.
                fs_files fs path = Some f
              \<and> copy_file enc fs1 path buf (f_data f) s = (z1, w1, n, None)
              \<and> n \<le> int (length (f_data f))
              \<and> int (length out') < n
              \<and> fs_files fs' (path @ ''.gz'') = Some g \<and> f_data g = out'))
       \<and> (os_Stat fs path = Inr s \<and> set_mtime fs path m s = Inr fs1 \<and> os_Open fs1 path = Inr d
            \<and> copy_file enc fs1 path buf d s = (z1, w1, n, None) \<and> gz_Close enc z1 w1 = (w2, None)
            \<and> n \<le> int (length (lw_buf w2)) \<longrightarrow>
              IfSmallerBuffer enc fs path m out buf = (fs1, lw_buf w2, False, None)
            \<and> fs_files fs1 (path @ ''.gz'') = fs_files fs (path @ ''.gz'')
            \<and> fs_files fs1 (path @ ''.gz~'') = fs_files fs (path @ ''.gz~''))"
proof (intro conjI impI)
  assume r: "IfSmallerBuffer enc fs path m out buf = (fs', out', True, err)"
  show "\<exists>f g s fs1 z1 w1 n.
                fs_files fs path = Some f
              \<and> copy_file enc fs1 path buf (f_data f) s = (z1, w1, n, None)
              \<and> n \<le> int (length (f_data f))
              \<and> int (length out') < n
              \<and> fs_files fs' (path @ ''.gz'') = Some g \<and> f_data g = out'"
  proof (cases rule: ISB_cases[of fs path enc m out buf])
    case (renamed s fs1 d z1 w1 n w2 fs2 fs3 fs4)
    from set_mtime_Inr[OF renamed(1,2)] obtain f t where f: "fs_files fs path = Some f"
      "fs1 = fs\<lparr>fs_files := (fs_files fs)(path \<mapsto> f\<lparr>f_modTime := t\<rparr>)\<rparr>" by blast
    with os_Open_Inr[OF renamed(3)] have d: "d = f_data f" by simp
    from copy_file_written[OF renamed(4)] have "n \<le> int (length d)"
      using length_concat_chop[of "buf_len buf" d] by simp
    moreover from ISB_done_store[OF renamed(1,2,7,8,9)] obtain g where
      "fs_files fs4 (path @ ''.gz'') = Some g" "f_data g = lw_buf w2" by blast
    moreover from r renamed(10) have "fs' = fs4" "out' = lw_buf w2" by simp_all
    ultimately show ?thesis using f(1) d renamed(4,6) by blast
  qed (use r in \<open>simp_all\<close>)
next
  assume a: "os_Stat fs path = Inr s \<and> set_mtime fs path m s = Inr fs1 \<and> os_Open fs1 path = Inr d
            \<and> copy_file enc fs1 path buf d s = (z1, w1, n, None) \<and> gz_Close enc z1 w1 = (w2, None)
            \<and> n \<le> int (length (lw_buf w2))"
  then show "IfSmallerBuffer enc fs path m out buf = (fs1, lw_buf w2, False, None)"
    by (simp add: ISB_not_smaller)
  from a set_mtime_Inr[of fs path s m fs1]
  show "fs_files fs1 (path @ ''.gz'') = fs_files fs (path @ ''.gz'')"
    "fs_files fs1 (path @ ''.gz~'') = fs_files fs (path @ ''.gz~'')"
    by auto
qed

theorem C1_artifact_is_smaller_witness:
  "snd (IfSmallerBuffer rle fs0 ''/r/a'' 9 [] None) = ([7, 6], True, None)
   \<and> (\<exists>f g. fs_files fs0 ''/r/a'' = Some f
         \<and> fs_files (fst (IfSmallerBuffer rle fs0 ''/r/a'' 9 [] None)) ''/r/a.gz'' = Some g
         \<and> f_data g = [7, 6] \<and> length (f_data g) < length (f_data f))
   \<and> snd (IfSmallerBuffer rle fs0 ''/r/d'' 9 [] None) = ([7, 2], False, None)
   \<and> fs_files (fst (IfSmallerBuffer rle fs0 ''/r/d'' 9 [] None)) ''/r/d.gz'' = None"
proof -
  have a': "snd (IfSmallerBuffer rle fs0 ''/r/a'' 9 [] None) = ([7, 6], True, None)"
    by (simp add: IfSmallerBuffer_def ev)
  then have a: "IfSmallerBuffer rle fs0 ''/r/a'' 9 [] None
             = (fst (IfSmallerBuffer rle fs0 ''/r/a'' 9 [] None), [7, 6], True, None)"
    by (metis prod.collapse)
  have d: "os_Stat fs0 ''/r/d'' = Inr \<lparr>st_size = 2, st_modTime = 5, st_perm = 420\<rparr>
         \<and> set_mtime fs0 ''/r/d'' 9 \<lparr>st_size = 2, st_modTime = 5, st_perm = 420\<rparr>
             = Inr (projr (set_mtime fs0 ''/r/d'' 9 \<lparr>st_size = 2, st_modTime = 5, st_perm = 420\<rparr>))
         \<and> os_Open (projr (set_mtime fs0 ''/r/d'' 9 \<lparr>st_size = 2, st_modTime = 5, st_perm = 420\<rparr>)) ''/r/d''
             = Inr [7, 7]
         \<and> copy_file rle (projr (set_mtime fs0 ''/r/d'' 9 \<lparr>st_size = 2, st_modTime = 5, st_perm = 420\<rparr>))
              ''/r/d'' None [7, 7] \<lparr>st_size = 2, st_modTime = 5, st_perm = 420\<rparr>
             = (Some (7, 2), \<lparr>lw_buf = [], lw_n = 2\<rparr>, 2, None)
         \<and> gz_Close rle (Some (7, 2)) \<lparr>lw_buf = [], lw_n = 2\<rparr> = (\<lparr>lw_buf = [7, 2], lw_n = 0\<rparr>, None)
         \<and> (2::int) \<le> int (length (lw_buf \<lparr>lw_buf = [7, 2], lw_n = 0\<rparr>))"
    by (simp add: ev)
  from C1_artifact_is_smaller[THEN conjunct1, rule_format, OF a]
  obtain f g s fs1 z1 w1 n where *: "fs_files fs0 ''/r/a'' = Some f"
    "n \<le> int (length (f_data f))" "int (length [7, 6 :: byte]) < n"
    "fs_files (fst (IfSmallerBuffer rle fs0 ''/r/a'' 9 [] None)) (''/r/a'' @ ''.gz'') = Some g"
    "f_data g = [7, 6]" by blast
  then have ex: "\<exists>f g. fs_files fs0 ''/r/a'' = Some f
         \<and> fs_files (fst (IfSmallerBuffer rle fs0 ''/r/a'' 9 [] None)) ''/r/a.gz'' = Some g
         \<and> f_data g = [7, 6] \<and> length (f_data g) < length (f_data f)"
    by (intro exI[of _ f] exI[of _ g]) auto
  from C1_artifact_is_smaller[THEN conjunct2, rule_format, OF d, of "[]"]
  have dd: "IfSmallerBuffer rle fs0 ''/r/d'' 9 [] None
              = (projr (set_mtime fs0 ''/r/d'' 9 \<lparr>st_size = 2, st_modTime = 5, st_perm = 420\<rparr>),
                 [7, 2], False, None)"
    "fs_files (projr (set_mtime fs0 ''/r/d'' 9 \<lparr>st_size = 2, st_modTime = 5, st_perm = 420\<rparr>))
        (''/r/d'' @ ''.gz'') = fs_files fs0 (''/r/d'' @ ''.gz'')"
    by simp_all
  have "fs_files fs0 ''/r/d.gz'' = None" by (simp add: ev)
  with a' ex dd show ?thesis by simp
qed

subsection \<open>Errors of the conditional compressor\<close>

lemma set_mtime_artifacts:
  assumes "os_Stat fs path = Inr s" "set_mtime fs path m s = Inr fs1"
  shows "fs_files fs1 (path @ ''.gz'') = fs_files fs (path @ ''.gz'')"
    and "fs_files fs1 (path @ ''.gz~'') = fs_files fs (path @ ''.gz~'')"
  using set_mtime_Inr[OF assms] by auto

text \<open>
  C4: \<open>IfSmallerBuffer\<close> never returns \<open>errSizeThresholdExceeded\<close>, and it never reports a
  change together with an error. When the copy into the encoder, or the close of the encoder,
  fails with \<open>errSizeThresholdExceeded\<close>, the call returns \<open>(false, nil)\<close> and leaves \<open>path.gz\<close>
  and \<open>path.gz~\<close> as they were. Every other failure is returned as the error, with the result
  \<open>false\<close>: of \<open>os.Stat\<close>, of \<open>os.Chtimes\<close> on the source, of \<open>os.Open\<close>, of the copy, of the
  close, of \<open>os.WriteFile\<close>, of \<open>os.Chtimes\<close> on the temporary file and of \<open>os.Rename\<close>.
\<close>

theorem C4_budget_is_internal:
  fixes enc :: "'z encoder"
  shows "snd (snd (snd (IfSmallerBuffer enc fs path m out buf))) \<noteq> Some errSizeThresholdExceeded
       \<and> (snd (snd (snd (IfSmallerBuffer enc fs path m out buf))) = None
            \<or> \<not> fst (snd (snd (IfSmallerBuffer enc fs path m out buf))))
       \<and> (os_Stat fs path = Inr s \<and> set_mtime fs path m s = Inr fs1 \<and> os_Open fs1 path = Inr d
            \<and> copy_file enc fs1 path buf d s = (z1, w1, n, Some errSizeThresholdExceeded) \<longrightarrow>
              IfSmallerBuffer enc fs path m out buf = (fs1, lw_buf w1, False, None)
            \<and> fs_files fs1 (path @ ''.gz'') = fs_files fs (path @ ''.gz'')
            \<and> fs_files fs1 (path @ ''.gz~'') = fs_files fs (path @ ''.gz~''))
       \<and> (os_Stat fs path = Inr s \<and> set_mtime fs path m s = Inr fs1 \<and> os_Open fs1 path = Inr d
            \<and> copy_file enc fs1 path buf d s = (z1, w1, n, None)
            \<and> gz_Close enc z1 w1 = (w2, Some errSizeThresholdExceeded) \<longrightarrow>
              IfSmallerBuffer enc fs path m out buf = (fs1, lw_buf w2, False, None)
            \<and> fs_files fs1 (path @ ''.gz'') = fs_files fs (path @ ''.gz'')
            \<and> fs_files fs1 (path @ ''.gz~'') = fs_files fs (path @ ''.gz~''))
       \<and> (os_Stat fs path = Inl e \<longrightarrow>
            snd (snd (IfSmallerBuffer enc fs path m out buf)) = (False, Some e))
       \<and> (os_Stat fs path = Inr s \<and> st_modTime s \<noteq> m \<and> os_Chtimes fs path m = Inl e \<longrightarrow>
            snd (snd (IfSmallerBuffer enc fs path m out buf)) = (False, Some e))
       \<and> (os_Stat fs path = Inr s \<and> set_mtime fs path m s = Inr fs1 \<and> os_Open fs1 path = Inl e \<longrightarrow>
            snd (snd (IfSmallerBuffer enc fs path m out buf)) = (False, Some e))
       \<and> (os_Stat fs path = Inr s \<and> set_mtime fs path m s = Inr fs1 \<and> os_Open fs1 path = Inr d
            \<and> copy_file enc fs1 path buf d s = (z1, w1, n, Some e) \<and> e \<noteq> errSizeThresholdExceeded \<longrightarrow>
            snd (snd (IfSmallerBuffer enc fs path m out buf)) = (False, Some e))
       \<and> (os_Stat fs path = Inr s \<and> set_mtime fs path m s = Inr fs1 \<and> os_Open fs1 path = Inr d
            \<and> copy_file enc fs1 path buf d s = (z1, w1, n, None)
            \<and> gz_Close enc z1 w1 = (w2, Some e) \<and> e \<noteq> errSizeThresholdExceeded \<longrightarrow>
            snd (snd (IfSmallerBuffer enc fs path m out buf)) = (False, Some e))
       \<and> (os_Stat fs path = Inr s \<and> set_mtime fs path m s = Inr fs1 \<and> os_Open fs1 path = Inr d
            \<and> copy_file enc fs1 path buf d s = (z1, w1, n, None) \<and> gz_Close enc z1 w1 = (w2, None)
            \<and> int (length (lw_buf w2)) < n
            \<and> os_WriteFile fs1 (path @ ''.gz~'') (lw_buf w2) (st_perm s) = Inl e \<longrightarrow>
            snd (snd (IfSmallerBuffer enc fs path m out buf)) = (False, Some e))
       \<and> (os_Stat fs path = Inr s \<and> set_mtime fs path m s = Inr fs1 \<and> os_Open fs1 path = Inr d
            \<and> copy_file enc fs1 path buf d s = (z1, w1, n, None) \<and> gz_Close enc z1 w1 = (w2, None)
            \<and> int (length (lw_buf w2)) < n
            \<and> os_WriteFile fs1 (path @ ''.gz~'') (lw_buf w2) (st_perm s) = Inr fs2
            \<and> os_Chtimes fs2 (path @ ''.gz~'') m = Inl e \<longrightarrow>
            snd (snd (IfSmallerBuffer enc fs path m out buf)) = (False, Some e))
       \<and> (os_Stat fs path = Inr s \<and> set_mtime fs path m s = Inr fs1 \<and> os_Open fs1 path = Inr d
            \<and> copy_file enc fs1 path buf d s = (z1, w1, n, None) \<and> gz_Close enc z1 w1 = (w2, None)
            \<and> int (length (lw_buf w2)) < n
            \<and> os_WriteFile fs1 (path @ ''.gz~'') (lw_buf w2) (st_perm s) = Inr fs2
            \<and> os_Chtimes fs2 (path @ ''.gz~'') m = Inr fs3
            \<and> os_Rename fs3 (path @ ''.gz~'') (path @ ''.gz'') = Inl e \<longrightarrow>
            snd (snd (IfSmallerBuffer enc fs path m out buf)) = (False, Some e))"
proof -
  let ?R = "IfSmallerBuffer enc fs path m out buf"
  have never: "snd (snd (snd ?R)) \<noteq> Some errSizeThresholdExceeded"
  proof (cases rule: ISB_cases[of fs path enc m out buf])
    case (stat_err e)
    then show ?thesis by (auto simp: os_Stat_def split: option.splits)
  next
    case (mtime_err s e)
    then show ?thesis by (auto simp: set_mtime_def os_Chtimes_def split: option.splits if_splits)
  next
    case (open_err s fs1 e)
    then show ?thesis by (auto simp: os_Open_def split: option.splits)
  next
    case (write_err s fs1 f z1 w1 n w2 e)
    then show ?thesis by (auto simp: os_WriteFile_def split: option.splits)
  next
    case (chtimes_err s fs1 f z1 w1 n w2 fs2 e)
    then show ?thesis by (auto simp: os_Chtimes_def split: option.splits if_splits)
  next
    case (rename_err s fs1 f z1 w1 n w2 fs2 fs3 e)
    then show ?thesis by (auto simp: os_Rename_def split: option.splits)
  qed simp_all
  have flag: "snd (snd (snd ?R)) = None \<or> \<not> fst (snd (snd ?R))"
    by (cases rule: ISB_cases[of fs path enc m out buf]) simp_all
  show ?thesis
    apply (intro conjI impI)
    subgoal by (rule never)
    subgoal by (rule flag)
    subgoal by (elim conjE) (simp add: ISB_copy_err)
    subgoal by (elim conjE) (rule set_mtime_artifacts)
    subgoal by (elim conjE) (rule set_mtime_artifacts)
    subgoal by (elim conjE) (simp add: ISB_close_err)
    subgoal by (elim conjE) (rule set_mtime_artifacts)
    subgoal by (elim conjE) (rule set_mtime_artifacts)
    subgoal by (simp add: ISB_stat_err)
    subgoal by (elim conjE) (simp add: ISB_mtime_err set_mtime_def)
    subgoal by (elim conjE) (simp add: ISB_open_err)
    subgoal by (elim conjE) (simp add: ISB_copy_err)
    subgoal by (elim conjE) (simp add: ISB_close_err)
    subgoal by (elim conjE) (simp add: ISB_write_err)
    subgoal by (elim conjE) (simp add: ISB_chtimes_err)
    subgoal by (elim conjE) (simp add: ISB_rename_err)
    done
qed

theorem C4_budget_is_internal_witness:
  "IfSmallerBuffer rle fs0 ''/r/b'' 9 [] None
     = (projr (set_mtime fs0 ''/r/b'' 9 \<lparr>st_size = 3, st_modTime = 5, st_perm = 420\<rparr>),
        [1, 1, 2, 1], False, None)
   \<and> copy_file rle (projr (set_mtime fs0 ''/r/b'' 9 \<lparr>st_size = 3, st_modTime = 5, st_perm = 420\<rparr>))
        ''/r/b'' None [1, 2, 3] \<lparr>st_size = 3, st_modTime = 5, st_perm = 420\<rparr>
       = (Some (3, 1), \<lparr>lw_buf = [1, 1, 2, 1], lw_n = - 1\<rparr>, 0, Some errSizeThresholdExceeded)
   \<and> IfSmallerBuffer rle fs0 ''/r/c'' 9 [] None = (fs0, [1, 1, 2, 1], False, None)
   \<and> gz_Close rle (Some (2, 1)) \<lparr>lw_buf = [1, 1], lw_n = 0\<rparr>
       = (\<lparr>lw_buf = [1, 1, 2, 1], lw_n = - 2\<rparr>, Some errSizeThresholdExceeded)
   \<and> snd (snd (IfSmallerBuffer rle (failing (Stat ''/r/a'')) ''/r/a'' 9 [] None))
       = (False, Some (OSError ''injected''))
   \<and> snd (snd (IfSmallerBuffer rle (failing (Read ''/r/a'' 1)) ''/r/a'' 9 [] None))
       = (False, Some (OSError ''injected''))"
proof -
  let ?sb = "\<lparr>st_size = 3, st_modTime = 5, st_perm = 420\<rparr>"
  let ?sc = "\<lparr>st_size = 2, st_modTime = 9, st_perm = 420\<rparr>"
  let ?sa = "\<lparr>st_size = 6, st_modTime = 5, st_perm = 420\<rparr>"
  let ?fa = "failing (Read ''/r/a'' 1)"
  have b: "os_Stat fs0 ''/r/b'' = Inr ?sb
         \<and> set_mtime fs0 ''/r/b'' 9 ?sb = Inr (projr (set_mtime fs0 ''/r/b'' 9 ?sb))
         \<and> os_Open (projr (set_mtime fs0 ''/r/b'' 9 ?sb)) ''/r/b'' = Inr [1, 2, 3]
         \<and> copy_file rle (projr (set_mtime fs0 ''/r/b'' 9 ?sb)) ''/r/b'' None [1, 2, 3] ?sb
             = (Some (3, 1), \<lparr>lw_buf = [1, 1, 2, 1], lw_n = - 1\<rparr>, 0, Some errSizeThresholdExceeded)"
    by (simp add: ev)
  have c: "os_Stat fs0 ''/r/c'' = Inr ?sc
         \<and> set_mtime fs0 ''/r/c'' 9 ?sc = Inr fs0
         \<and> os_Open fs0 ''/r/c'' = Inr [1, 2]
         \<and> copy_file rle fs0 ''/r/c'' None [1, 2] ?sc
             = (Some (2, 1), \<lparr>lw_buf = [1, 1], lw_n = 0\<rparr>, 2, None)
         \<and> gz_Close rle (Some (2, 1)) \<lparr>lw_buf = [1, 1], lw_n = 0\<rparr>
             = (\<lparr>lw_buf = [1, 1, 2, 1], lw_n = - 2\<rparr>, Some errSizeThresholdExceeded)"
    by (simp add: ev)
  have a: "os_Stat (failing (Stat ''/r/a'')) ''/r/a'' = Inl (OSError ''injected'')"
    by (simp add: ev)
  have r: "os_Stat ?fa ''/r/a'' = Inr ?sa
         \<and> set_mtime ?fa ''/r/a'' 9 ?sa = Inr (projr (set_mtime ?fa ''/r/a'' 9 ?sa))
         \<and> os_Open (projr (set_mtime ?fa ''/r/a'' 9 ?sa)) ''/r/a'' = Inr [7, 7, 7, 7, 7, 7]
         \<and> copy_file rle (projr (set_mtime ?fa ''/r/a'' 9 ?sa)) ''/r/a'' None [7, 7, 7, 7, 7, 7] ?sa
             = (Some (7, 6), \<lparr>lw_buf = [], lw_n = 6\<rparr>, 6, Some (OSError ''injected''))
         \<and> OSError ''injected'' \<noteq> errSizeThresholdExceeded"
    by (simp add: ev)
  note t = C4_budget_is_internal[THEN conjunct2, THEN conjunct2]
  from t[THEN conjunct1, rule_format, OF b, of "[]"]
       t[THEN conjunct2, THEN conjunct1, rule_format, OF c, of "[]"]
       t[THEN conjunct2, THEN conjunct2, THEN conjunct1, rule_format, OF a, of rle 9 "[]" None]
       t[THEN conjunct2, THEN conjunct2, THEN conjunct2, THEN conjunct2, THEN conjunct2,
         THEN conjunct1, rule_format, OF r, of "[]"]
       b c
  show ?thesis by simp
qed

subsection \<open>The tree walker\<close>

lemma scan_sorted:
  "sorted_wrt (<) (map Name ds) \<Longrightarrow> scan needle ds = (needle \<in> Name ` set ds)"
proof (induction ds)
  case Nil
  then show ?case by simp
next
  case (Cons d ds)
  then have IH: "scan needle ds = (needle \<in> Name ` set ds)" by simp
  show ?case
  proof (cases "Name d = needle")
    case True
    then show ?thesis by simp
  next
    case ne: False
    show ?thesis
    proof (cases "needle < Name d")
      case True
      with Cons.prems have "\<forall>x \<in> set ds. needle < Name x" by auto
      then have "needle \<notin> Name ` set ds" by auto
      with True ne show ?thesis by auto
    next
      case False
      with ne IH show ?thesis by auto
    qed
  qed
qed

lemma scan_found: "scan needle ds \<Longrightarrow> needle \<in> Name ` set ds"
  by (induction ds) (auto split: if_splits)

lemma loop_File_skip:
  "HasSuffix nm ''.gz'' \<or> scan (nm @ ''.gz'') ds \<Longrightarrow>
   recurse_loop ignore rd root prefix (File nm # ds) = recurse_loop ignore rd root prefix ds"
  by auto

lemma loop_File_send:
  "\<not> HasSuffix nm ''.gz'' \<Longrightarrow> \<not> scan (nm @ ''.gz'') ds \<Longrightarrow>
   recurse_loop ignore rd root prefix (File nm # ds)
     = (Join prefix nm # fst (recurse_loop ignore rd root prefix ds),
        snd (recurse_loop ignore rd root prefix ds))"
  by (simp split: prod.splits)

lemma loop_Dir_skip:
  "ignore (Join prefix nm) \<Longrightarrow>
   recurse_loop ignore rd root prefix (Dir nm sub # ds) = recurse_loop ignore rd root prefix ds"
  by simp

lemma loop_Dir_enter:
  "\<not> ignore (Join prefix nm) \<Longrightarrow>
   recurse_loop ignore rd root prefix (Dir nm sub # ds)
     = (case snd (recurse ignore rd root (Join prefix nm) sub) of
          Some e \<Rightarrow> recurse ignore rd root (Join prefix nm) sub
        | None \<Rightarrow>
            (fst (recurse ignore rd root (Join prefix nm) sub)
               @ fst (recurse_loop ignore rd root prefix ds),
             snd (recurse_loop ignore rd root prefix ds)))"
  by (simp split: prod.splits option.splits del: recurse.simps)

text \<open>Where a path sent by the loop comes from.\<close>

lemma recurse_loop_origin:
  "p \<in> set (fst (recurse_loop ignore rd root prefix ds)) \<Longrightarrow>
     (\<exists>pre nm post. ds = pre @ File nm # post \<and> p = Join prefix nm
          \<and> \<not> HasSuffix nm ''.gz'' \<and> \<not> scan (nm @ ''.gz'') post)
   \<or> (\<exists>nm sub. Dir nm sub \<in> set ds \<and> \<not> ignore (Join prefix nm)
          \<and> p \<in> set (fst (recurse ignore rd root (Join prefix nm) sub)))"
proof (induction ds)
  case Nil
  then show ?case by simp
next
  case (Cons d ds)
  let ?rest = "(\<exists>pre nm post. ds = pre @ File nm # post \<and> p = Join prefix nm
          \<and> \<not> HasSuffix nm ''.gz'' \<and> \<not> scan (nm @ ''.gz'') post)
   \<or> (\<exists>nm sub. Dir nm sub \<in> set ds \<and> \<not> ignore (Join prefix nm)
          \<and> p \<in> set (fst (recurse ignore rd root (Join prefix nm) sub)))"
  have step: "?rest \<Longrightarrow> ?case"
  proof (erule disjE)
    assume "\<exists>pre nm post. ds = pre @ File nm # post \<and> p = Join prefix nm
          \<and> \<not> HasSuffix nm ''.gz'' \<and> \<not> scan (nm @ ''.gz'') post"
    then obtain pre nm post where "ds = pre @ File nm # post" "p = Join prefix nm"
      "\<not> HasSuffix nm ''.gz''" "\<not> scan (nm @ ''.gz'') post" by blast
    then have "d # ds = (d # pre) @ File nm # post" by simp
    with \<open>p = Join prefix nm\<close> \<open>\<not> HasSuffix nm ''.gz''\<close> \<open>\<not> scan (nm @ ''.gz'') post\<close>
    show ?case by blast
  next
    assume "\<exists>nm sub. Dir nm sub \<in> set ds \<and> \<not> ignore (Join prefix nm)
          \<and> p \<in> set (fst (recurse ignore rd root (Join prefix nm) sub))"
    then show ?case by auto
  qed
  show ?case
  proof (cases d)
    case (File nm)
    show ?thesis
    proof (cases "HasSuffix nm ''.gz'' \<or> scan (nm @ ''.gz'') ds")
      case True
      with Cons.prems File have "p \<in> set (fst (recurse_loop ignore rd root prefix ds))"
        by (simp only: loop_File_skip)
      from step[OF Cons.IH[OF this]] show ?thesis .
    next
      case False
      with Cons.prems File have "p = Join prefix nm \<or> p \<in> set (fst (recurse_loop ignore rd root prefix ds))"
        by (auto simp: loop_File_send simp del: recurse_loop.simps)
      then show ?thesis
      proof
        assume "p = Join prefix nm"
        with False File have "d # ds = [] @ File nm # ds \<and> p = Join prefix nm
          \<and> \<not> HasSuffix nm ''.gz'' \<and> \<not> scan (nm @ ''.gz'') ds" by simp
        then show ?thesis by blast
      next
        assume "p \<in> set (fst (recurse_loop ignore rd root prefix ds))"
        from step[OF Cons.IH[OF this]] show ?thesis .
      qed
    qed
  next
    case (Dir nm sub)
    show ?thesis
    proof (cases "ignore (Join prefix nm)")
      case True
      with Cons.prems Dir have "p \<in> set (fst (recurse_loop ignore rd root prefix ds))"
        by (simp only: loop_Dir_skip)
      from step[OF Cons.IH[OF this]] show ?thesis .
    next
      case False
      with Cons.prems Dir have "p \<in> set (fst (recurse ignore rd root (Join prefix nm) sub))
          \<or> p \<in> set (fst (recurse_loop ignore rd root prefix ds))"
        by (auto simp: loop_Dir_enter split: option.splits simp del: recurse.simps recurse_loop.simps)
      then show ?thesis
      proof
        assume "p \<in> set (fst (recurse ignore rd root (Join prefix nm) sub))"
        with False Dir show ?thesis by auto
      next
        assume "p \<in> set (fst (recurse_loop ignore rd root prefix ds))"
        from step[OF Cons.IH[OF this]] show ?thesis .
      qed
    qed
  next
    case (Special nm)
    with Cons.prems have "p \<in> set (fst (recurse_loop ignore rd root prefix ds))" by auto
    from step[OF Cons.IH[OF this]] show ?thesis .
  qed
qed

lemma Join_inject: "Join a b = Join a c \<Longrightarrow> b = c"
  by (auto simp: Join_def split: if_splits)

lemma Join_nonempty: "nm \<noteq> [] \<Longrightarrow> Join prefix nm \<noteq> []"
  by (simp add: Join_def)

lemma Join_below: "prefix \<noteq> [] \<Longrightarrow> Join prefix nm = prefix \<or> beneath prefix (Join prefix nm)"
  by (auto simp: Join_def beneath_def)

lemma beneath_trans: "beneath a b \<Longrightarrow> beneath b c \<Longrightarrow> beneath a c"
  by (auto simp: beneath_def)

lemma recurse_below:
  "prefix \<noteq> [] \<Longrightarrow> p \<in> set (fst (recurse ignore rd root prefix ds)) \<Longrightarrow>
     p = prefix \<or> beneath prefix p"
  "prefix \<noteq> [] \<Longrightarrow> p \<in> set (fst (recurse_loop ignore rd root prefix ds')) \<Longrightarrow>
     p = prefix \<or> beneath prefix p"
proof (induction ignore rd root prefix ds and ignore rd root prefix ds'
       arbitrary: p and p rule: recurse_recurse_loop.induct)
  case (1 ignore rd root prefix dirs)
  then show ?case by (auto split: option.splits)
next
  case (2 ignore rd root prefix)
  then show ?case by simp
next
  case (3 ignore rd root prefix nm ds)
  show ?case
  proof (cases "HasSuffix nm ''.gz'' \<or> scan (nm @ ''.gz'') ds")
    case True
    with "3.prems" have "p \<in> set (fst (recurse_loop ignore rd root prefix ds))"
      by (simp only: loop_File_skip)
    with True "3.IH"(1,2) "3.prems"(1) show ?thesis by blast
  next
    case False
    with "3.prems"(2) have "p = Join prefix nm \<or> p \<in> set (fst (recurse_loop ignore rd root prefix ds))"
      by (auto simp: loop_File_send simp del: recurse_loop.simps)
    with "3.IH"(3) "3.prems"(1) False Join_below[OF "3.prems"(1), of nm] show ?thesis by blast
  qed
next
  case (4 ignore rd root prefix nm sub ds)
  have ne: "Join prefix nm \<noteq> []" using "4.prems"(1) by (simp add: Join_def)
  show ?case
  proof (cases "ignore (Join prefix nm)")
    case True
    with "4.prems" have "p \<in> set (fst (recurse_loop ignore rd root prefix ds))"
      by (simp only: loop_Dir_skip)
    with True "4.IH"(1) "4.prems"(1) show ?thesis by blast
  next
    case False
    have sub: "q = prefix \<or> beneath prefix q"
      if "q \<in> set (fst (recurse ignore rd root (Join prefix nm) sub))" for q
      using "4.IH"(2)[OF False ne that] Join_below[OF "4.prems"(1), of nm]
      by (auto intro: beneath_trans)
    show ?thesis
    proof (cases "snd (recurse ignore rd root (Join prefix nm) sub)")
      case (Some e)
      with "4.prems"(2) False have "p \<in> set (fst (recurse ignore rd root (Join prefix nm) sub))"
        by (simp add: loop_Dir_enter del: recurse.simps recurse_loop.simps)
      then show ?thesis by (rule sub)
    next
      case None
      with "4.prems"(2) False have "p \<in> set (fst (recurse ignore rd root (Join prefix nm) sub))
          \<or> p \<in> set (fst (recurse_loop ignore rd root prefix ds))"
        by (auto simp: loop_Dir_enter simp del: recurse.simps recurse_loop.simps)
      moreover have "q = prefix \<or> beneath prefix q"
        if "q \<in> set (fst (recurse_loop ignore rd root prefix ds))" for q
        using "4.IH"(3)[OF False _ _ "4.prems"(1) that, of "fst (recurse ignore rd root (Join prefix nm) sub)" None]
          None by (simp add: prod_eq_iff del: recurse.simps)
      ultimately show ?thesis using sub by blast
    qed
  qed
next
  case (5 ignore rd root prefix nm ds)
  then show ?case by simp
qed

lemma less_append_gz: "nm < nm @ ''.gz''"
  by (simp add: list_less_def lexord_append_rightI)

lemma not_under:
  assumes "CHR ''/'' \<notin> set nm" "nm' \<noteq> []" "nm \<noteq> nm'"
  shows "Join prefix nm \<noteq> Join prefix nm'" "\<not> beneath (Join prefix nm') (Join prefix nm)"
proof -
  from assms(3) show "Join prefix nm \<noteq> Join prefix nm'" using Join_inject by blast
  show "\<not> beneath (Join prefix nm') (Join prefix nm)"
  proof
    assume "beneath (Join prefix nm') (Join prefix nm)"
    then obtain q where q: "Join prefix nm = Join prefix nm' @ ''/'' @ q" by (auto simp: beneath_def)
    have "\<exists>r. nm = r @ ''/'' @ q"
    proof (cases "prefix = []")
      case True
      with q show ?thesis by (auto simp: Join_def)
    next
      case False
      with q assms(2) show ?thesis by (cases "nm = []") (auto simp: Join_def)
    qed
    with assms(1) show False by auto
  qed
qed

lemma listing_names_inj:
  assumes "sorted_wrt (<) (map Name ds)" "d \<in> set ds" "d' \<in> set ds" "Name d = Name d'"
  shows "d = d'"
proof -
  from assms(1) have "distinct (map Name ds)" by (simp add: strict_sorted_iff)
  then have "inj_on Name (set ds)" by (simp add: distinct_map)
  with assms(2,3,4) show ?thesis by (auto dest: inj_onD)
qed

lemma recurse_in_loop:
  "p \<in> set (fst (recurse ignore rd root prefix ds)) \<Longrightarrow>
   p \<in> set (fst (recurse_loop ignore rd root prefix ds))"
  by (auto split: option.splits)

text \<open>A regular file of a listing is sent only from its own place in the listing.\<close>

lemma file_sent_from_its_place:
  assumes ok: "listing_ok dirs" and f: "File nm \<in> set dirs"
    and p: "Join prefix nm \<in> set (fst (recurse_loop ignore rd root prefix dirs))"
  shows "\<exists>pre post. dirs = pre @ File nm # post \<and> \<not> HasSuffix nm ''.gz''
           \<and> \<not> scan (nm @ ''.gz'') post"
proof -
  from ok have srt: "sorted_wrt (<) (map Name dirs)"
    and val: "\<forall>d \<in> set dirs. valid_name (Name d)"
    by (auto simp: listing_ok_def list_all_iff)
  from recurse_loop_origin[OF p] show ?thesis
  proof
    assume "\<exists>pre nm' post. dirs = pre @ File nm' # post \<and> Join prefix nm = Join prefix nm'
          \<and> \<not> HasSuffix nm' ''.gz'' \<and> \<not> scan (nm' @ ''.gz'') post"
    then obtain pre nm' post where *: "dirs = pre @ File nm' # post" "Join prefix nm = Join prefix nm'"
      "\<not> HasSuffix nm' ''.gz''" "\<not> scan (nm' @ ''.gz'') post" by blast
    from *(2) have "nm' = nm" using Join_inject by metis
    with * show ?thesis by blast
  next
    assume "\<exists>nm' sub. Dir nm' sub \<in> set dirs \<and> \<not> ignore (Join prefix nm')
          \<and> Join prefix nm \<in> set (fst (recurse ignore rd root (Join prefix nm') sub))"
    then obtain nm' sub where *: "Dir nm' sub \<in> set dirs"
      "Join prefix nm \<in> set (fst (recurse ignore rd root (Join prefix nm') sub))" by blast
    from val *(1) f have v: "valid_name nm'" "valid_name nm" by force+
    from listing_names_inj[OF srt f *(1)] have "nm \<noteq> nm'" by auto
    from v have "Join prefix nm' \<noteq> []" by (simp add: Join_nonempty valid_name_def)
    from recurse_below(1)[OF this *(2)] not_under[of nm nm' prefix] v \<open>nm \<noteq> nm'\<close>
    show ?thesis by (auto simp: valid_name_def)
  qed
qed

text \<open>
  C5: in a listing as \<open>os.ReadDir\<close> returns it (sorted by name), a regular file \<open>name\<close> for
  which the listing holds an entry \<open>name.gz\<close> is never sent to the work queue, whatever that
  entry holds, and a regular file whose own name ends in \<open>.gz\<close> is never sent. The forward
  scan, which stops at the first name greater than \<open>name.gz\<close>, finds \<open>name.gz\<close> exactly when
  it is among the entries after the current one.
\<close>

theorem C5_sibling_skip:
  assumes "listing_ok dirs"
  shows "(File nm \<in> set dirs \<and> nm @ ''.gz'' \<in> Name ` set dirs \<longrightarrow>
            Join prefix nm \<notin> set (fst (recurse ignore rd root prefix dirs)))
       \<and> (File nm \<in> set dirs \<and> HasSuffix nm ''.gz'' \<longrightarrow>
            Join prefix nm \<notin> set (fst (recurse ignore rd root prefix dirs)))
       \<and> (dirs = pre @ d # post \<longrightarrow> scan needle post = (needle \<in> Name ` set post))"
proof (intro conjI impI)
  from assms have srt: "sorted_wrt (<) (map Name dirs)" by (simp add: listing_ok_def)
  {
    assume a: "File nm \<in> set dirs \<and> nm @ ''.gz'' \<in> Name ` set dirs"
    show "Join prefix nm \<notin> set (fst (recurse ignore rd root prefix dirs))"
    proof
      assume "Join prefix nm \<in> set (fst (recurse ignore rd root prefix dirs))"
      then have "Join prefix nm \<in> set (fst (recurse_loop ignore rd root prefix dirs))"
        by (rule recurse_in_loop)
      from file_sent_from_its_place[OF assms _ this] a obtain pre post where
        *: "dirs = pre @ File nm # post" "\<not> scan (nm @ ''.gz'') post" by blast
      from srt * have sp: "sorted_wrt (<) (map Name post)" and
        lt: "\<forall>x \<in> set pre. Name x < nm"
        by (auto simp: sorted_wrt_append)
      from scan_sorted[OF sp] *(2) have "nm @ ''.gz'' \<notin> Name ` set post" by simp
      with a * have "nm @ ''.gz'' \<in> Name ` set pre" by auto
      with lt have "nm @ ''.gz'' < nm" by auto
      with less_append_gz[of nm] show False by (simp add: order.asym)
    qed
  }
  {
    assume a: "File nm \<in> set dirs \<and> HasSuffix nm ''.gz''"
    show "Join prefix nm \<notin> set (fst (recurse ignore rd root prefix dirs))"
    proof
      assume "Join prefix nm \<in> set (fst (recurse ignore rd root prefix dirs))"
      then have "Join prefix nm \<in> set (fst (recurse_loop ignore rd root prefix dirs))"
        by (rule recurse_in_loop)
      from file_sent_from_its_place[OF assms _ this] a show False by blast
    qed
  }
  {
    assume "dirs = pre @ d # post"
    with srt have "sorted_wrt (<) (map Name post)" by (simp add: sorted_wrt_append)
    then show "scan needle post = (needle \<in> Name ` set post)" by (rule scan_sorted)
  }
qed

theorem C5_sibling_skip_witness:
  "listing_ok [File ''a.txt'', File ''a.txt.gz'', File ''b.bin'', Dir ''sub'' [File ''c''], File ''x.gz'']
   \<and> fst (recurse (\<lambda>p. False) (\<lambda>p. None) ''/r'' []
        [File ''a.txt'', File ''a.txt.gz'', File ''b.bin'', Dir ''sub'' [File ''c''], File ''x.gz''])
      = [''b.bin'', ''sub/c'']
   \<and> ''a.txt'' \<notin> set (fst (recurse (\<lambda>p. False) (\<lambda>p. None) ''/r'' []
        [File ''a.txt'', File ''a.txt.gz'', File ''b.bin'', Dir ''sub'' [File ''c''], File ''x.gz'']))
   \<and> ''x.gz'' \<notin> set (fst (recurse (\<lambda>p. False) (\<lambda>p. None) ''/r'' []
        [File ''a.txt'', File ''a.txt.gz'', File ''b.bin'', Dir ''sub'' [File ''c''], File ''x.gz'']))
   \<and> scan ''a.txt.gz'' [File ''a.txt.gz'', File ''b.bin'', Dir ''sub'' [File ''c''], File ''x.gz'']
   \<and> \<not> scan ''b.bin.gz'' [Dir ''sub'' [File ''c''], File ''x.gz'']"
proof -
  let ?ds = "[File ''a.txt'', File ''a.txt.gz'', File ''b.bin'', Dir ''sub'' [File ''c''], File ''x.gz'']"
  have ok: "listing_ok ?ds"
    by (simp add: listing_ok_def valid_name_def)
  have a: "File ''a.txt'' \<in> set ?ds \<and> ''a.txt'' @ ''.gz'' \<in> Name ` set ?ds" by simp
  have x: "File ''x.gz'' \<in> set ?ds \<and> HasSuffix ''x.gz'' ''.gz''" by (simp add: HasSuffix_def)
  have e: "fst (recurse (\<lambda>p. False) (\<lambda>p. None) ''/r'' [] ?ds) = [''b.bin'', ''sub/c'']"
    by (simp add: Join_def HasSuffix_def)
  from C5_sibling_skip[OF ok, THEN conjunct1, rule_format, OF a, of "[]" "\<lambda>p. False" "\<lambda>p. None" "''/r''"]
       C5_sibling_skip[OF ok, THEN conjunct2, THEN conjunct1, rule_format, OF x, of "[]" "\<lambda>p. False" "\<lambda>p. None" "''/r''"]
       C5_sibling_skip[OF ok, THEN conjunct2, THEN conjunct2, rule_format,
         of "[]" "File ''a.txt''" "[File ''a.txt.gz'', File ''b.bin'', Dir ''sub'' [File ''c''], File ''x.gz'']" "''a.txt.gz''"]
       C5_sibling_skip[OF ok, THEN conjunct2, THEN conjunct2, rule_format,
         of "[File ''a.txt'', File ''a.txt.gz'', File ''b.bin'']" "Dir ''sub'' [File ''c'']" "[File ''x.gz'']" "''b.bin.gz''"]
       ok e
  show ?thesis by (simp add: Join_def)
qed

lemma recurse_ignore_cong:
  "(\<And>p. p \<in> set (dir_paths prefix ds) \<Longrightarrow> ignore p = ignore' p) \<Longrightarrow>
     recurse ignore rd root prefix ds = recurse ignore' rd root prefix ds"
  "(\<And>p. p \<in> set (dir_paths prefix ds') \<Longrightarrow> ignore p = ignore' p) \<Longrightarrow>
     recurse_loop ignore rd root prefix ds' = recurse_loop ignore' rd root prefix ds'"
proof (induction ignore rd root prefix ds and ignore rd root prefix ds'
       rule: recurse_recurse_loop.induct)
  case (1 ignore rd root prefix dirs)
  then show ?case by (auto split: option.splits)
next
  case (2 ignore rd root prefix)
  then show ?case by simp
next
  case (3 ignore rd root prefix nm ds)
  have "recurse_loop ignore rd root prefix ds = recurse_loop ignore' rd root prefix ds"
  proof (cases "HasSuffix nm ''.gz''")
    case True
    with "3.IH"(1) "3.prems" show ?thesis by simp
  next
    case h: False
    show ?thesis
    proof (cases "scan (nm @ ''.gz'') ds")
      case True
      with h "3.IH"(2) "3.prems" show ?thesis by simp
    next
      case False
      with h "3.IH"(3) "3.prems" show ?thesis by simp
    qed
  qed
  then show ?case by simp
next
  case (4 ignore rd root prefix nm sub ds)
  from "4.prems" have eq: "ignore (Join prefix nm) = ignore' (Join prefix nm)" by simp
  show ?case
  proof (cases "ignore (Join prefix nm)")
    case True
    with "4.IH"(1) "4.prems" have
      "recurse_loop ignore rd root prefix ds = recurse_loop ignore' rd root prefix ds" by simp
    with True eq show ?thesis by (simp only: loop_Dir_skip)
  next
    case False
    from "4.IH"(2)[OF False] "4.prems" have
      sub: "recurse ignore rd root (Join prefix nm) sub = recurse ignore' rd root (Join prefix nm) sub"
      by simp
    show ?thesis
    proof (cases "snd (recurse ignore rd root (Join prefix nm) sub)")
      case (Some e)
      with False eq sub show ?thesis by (simp add: loop_Dir_enter del: recurse.simps recurse_loop.simps)
    next
      case None
      from "4.IH"(3)[OF False, of "fst (recurse ignore rd root (Join prefix nm) sub)" None] None "4.prems"
      have "recurse_loop ignore rd root prefix ds = recurse_loop ignore' rd root prefix ds"
        by (simp add: prod_eq_iff del: recurse.simps)
      with False eq sub None show ?thesis
        by (simp add: loop_Dir_enter del: recurse.simps recurse_loop.simps)
    qed
  qed
next
  case (5 ignore rd root prefix nm ds)
  then show ?case by simp
qed

lemma recurse_loop_sends:
  "snd (recurse_loop ignore rd root prefix (pre @ File nm # post)) = None \<Longrightarrow>
   \<not> HasSuffix nm ''.gz'' \<Longrightarrow> \<not> scan (nm @ ''.gz'') post \<Longrightarrow>
   Join prefix nm \<in> set (fst (recurse_loop ignore rd root prefix (pre @ File nm # post)))"
proof (induction pre)
  case Nil
  then show ?case by (simp add: loop_File_send del: recurse_loop.simps)
next
  case (Cons d pre)
  let ?ds = "pre @ File nm # post"
  show ?case
  proof (cases d)
    case (File nm0)
    show ?thesis
    proof (cases "HasSuffix nm0 ''.gz'' \<or> scan (nm0 @ ''.gz'') ?ds")
      case True
      with Cons File show ?thesis by (simp add: loop_File_skip del: recurse_loop.simps)
    next
      case False
      with Cons File show ?thesis by (simp add: loop_File_send del: recurse_loop.simps)
    qed
  next
    case (Dir nm0 sub)
    show ?thesis
    proof (cases "ignore (Join prefix nm0)")
      case True
      with Cons Dir show ?thesis by (simp add: loop_Dir_skip del: recurse_loop.simps)
    next
      case False
      show ?thesis
      proof (cases "snd (recurse ignore rd root (Join prefix nm0) sub)")
        case (Some e)
        with Cons.prems(1) Dir False show ?thesis
          by (simp add: loop_Dir_enter del: recurse.simps recurse_loop.simps)
      next
        case None
        with Cons Dir False show ?thesis
          by (simp add: loop_Dir_enter del: recurse.simps recurse_loop.simps)
      qed
    qed
  next
    case (Special nm0)
    with Cons show ?thesis by simp
  qed
qed

lemma worker_iter_ignored:
  "ignore s \<Longrightarrow> worker_iter enc ignore root m s st = (st, None)"
  by (simp add: worker_iter_def split: prod.splits)

lemma take_item_ignored:
  "ignore s \<Longrightarrow> take_item enc ignore root m (s, i) p = p"
proof -
  assume a: "ignore s"
  show ?thesis
  proof (cases "g_ret (p_gs p ! i)")
    case (Some e)
    then show ?thesis by (simp add: take_item_def)
  next
    case None
    then have "\<lparr>g_n = g_n (p_gs p ! i), g_out = g_out (p_gs p ! i), g_ret = None\<rparr> = p_gs p ! i"
      by simp
    then have g: "(p_gs p)[i := \<lparr>g_n = g_n (p_gs p ! i), g_out = g_out (p_gs p ! i), g_ret = None\<rparr>] = p_gs p"
      by (simp only: list_update_id)
    from a None show ?thesis
      by (simp add: take_item_def Let_def worker_iter_ignored g)
  qed
qed

text \<open>
  C10: the walker applies the ignore pattern to directories only. What \<open>recurse\<close> sends and
  returns is the same for two patterns that agree on the relative paths of the directories of
  the tree. A regular file that passes the suffix test and the sibling scan is sent when the
  traversal returns no error, also when its relative path matches the pattern. It is the
  worker that leaves such an item alone: the iteration of \<open>worker\<close> for it changes nothing,
  and so does the goroutine that receives it.
\<close>

theorem C10_walker_tests_directories_only:
  fixes enc :: "'z encoder"
  shows "((\<forall>p \<in> set (dir_paths prefix dirs). ignore p = ignore' p) \<longrightarrow>
            recurse ignore rd root prefix dirs = recurse ignore' rd root prefix dirs)
       \<and> (dirs = pre @ File nm # post \<and> \<not> HasSuffix nm ''.gz'' \<and> \<not> scan (nm @ ''.gz'') post
            \<and> snd (recurse ignore rd root prefix dirs) = None \<and> ignore (Join prefix nm) \<longrightarrow>
            Join prefix nm \<in> set (fst (recurse ignore rd root prefix dirs)))
       \<and> (ignore s \<longrightarrow>
            worker_iter enc ignore root m s st = (st, None)
          \<and> take_item enc ignore root m (s, i) pl = pl)"
proof (intro conjI impI)
  assume "\<forall>p \<in> set (dir_paths prefix dirs). ignore p = ignore' p"
  then show "recurse ignore rd root prefix dirs = recurse ignore' rd root prefix dirs"
    by (intro recurse_ignore_cong(1)) blast
next
  assume a: "dirs = pre @ File nm # post \<and> \<not> HasSuffix nm ''.gz'' \<and> \<not> scan (nm @ ''.gz'') post
            \<and> snd (recurse ignore rd root prefix dirs) = None \<and> ignore (Join prefix nm)"
  show "Join prefix nm \<in> set (fst (recurse ignore rd root prefix dirs))"
  proof (cases "rd (Join root prefix)")
    case None
    then have eq: "recurse ignore rd root prefix dirs = recurse_loop ignore rd root prefix dirs"
      by simp
    from a recurse_loop_sends[of ignore rd root prefix pre nm post] show ?thesis
      unfolding eq by blast
  next
    case (Some e)
    with a show ?thesis by simp
  qed
next
  assume "ignore s"
  then show "worker_iter enc ignore root m s st = (st, None)" by (rule worker_iter_ignored)
next
  assume "ignore s"
  then show "take_item enc ignore root m (s, i) pl = pl" by (rule take_item_ignored)
qed

theorem C10_walker_tests_directories_only_witness:
  "recurse (\<lambda>p. p = ''a.txt'' \<or> p = ''sub'') (\<lambda>p. None) ''/r'' []
      [File ''a.txt'', File ''b.txt'', Dir ''sub'' [File ''c'']] = ([''a.txt'', ''b.txt''], None)
   \<and> recurse (\<lambda>p. p = ''sub'') (\<lambda>p. None) ''/r'' []
      [File ''a.txt'', File ''b.txt'', Dir ''sub'' [File ''c'']] = ([''a.txt'', ''b.txt''], None)
   \<and> worker_iter rle (\<lambda>p. p = ''a.txt'' \<or> p = ''sub'') ''/r'' 9 ''a.txt'' (fs0, [], 0)
       = ((fs0, [], 0), None)
   \<and> take_item rle (\<lambda>p. p = ''a.txt'' \<or> p = ''sub'') ''/r'' 9 (''a.txt'', 0) (start_pool 1 fs0)
       = start_pool 1 fs0"
proof -
  let ?ds = "[File ''a.txt'', File ''b.txt'', Dir ''sub'' [File ''c'']]"
  let ?ig = "\<lambda>p. p = ''a.txt'' \<or> p = ''sub''"
  have d: "\<forall>p \<in> set (dir_paths [] ?ds). ?ig p = (p = ''sub'')"
    by (simp add: Join_def)
  have e: "recurse ?ig (\<lambda>p. None) ''/r'' [] ?ds = ([''a.txt'', ''b.txt''], None)"
    by (simp add: Join_def HasSuffix_def)
  have a: "?ds = [] @ File ''a.txt'' # [File ''b.txt'', Dir ''sub'' [File ''c'']]
         \<and> \<not> HasSuffix ''a.txt'' ''.gz''
         \<and> \<not> scan (''a.txt'' @ ''.gz'') [File ''b.txt'', Dir ''sub'' [File ''c'']]
         \<and> snd (recurse ?ig (\<lambda>p. None) ''/r'' [] ?ds) = None \<and> ?ig (Join [] ''a.txt'')"
    by (simp add: Join_def HasSuffix_def)
  have i: "?ig ''a.txt''" by simp
  note t = C10_walker_tests_directories_only
  from t[THEN conjunct1, THEN mp, OF d, of "\<lambda>p. None" "''/r''"]
       t[THEN conjunct2, THEN conjunct1, rule_format, OF a]
       t[where ignore = "?ig" and s = "''a.txt''" and enc = rle and root = "''/r''" and m = 9
           and st = "(fs0, [], 0)" and i = 0 and pl = "start_pool 1 fs0",
         THEN conjunct2, THEN conjunct2, THEN mp, OF i]
       e
  show ?thesis by simp
qed

subsection \<open>Ignored paths\<close>

lemma beneath_Join:
  assumes "valid_name nm" "beneath d (Join prefix nm)"
  shows "prefix \<noteq> [] \<and> (d = prefix \<or> beneath d prefix)"
proof -
  from assms(2) obtain q where q: "Join prefix nm = d @ ''/'' @ q" by (auto simp: beneath_def)
  from assms(1) have nm: "nm \<noteq> []" "CHR ''/'' \<notin> set nm" by (simp_all add: valid_name_def)
  have ne: "prefix \<noteq> []"
  proof
    assume "prefix = []"
    with q have "nm = d @ ''/'' @ q" by (simp add: Join_def)
    with nm(2) show False by auto
  qed
  with q nm(1) have "prefix @ (CHR ''/'' # nm) = d @ (CHR ''/'' # q)" by (simp add: Join_def)
  then obtain us where "(prefix = d @ us \<and> us @ CHR ''/'' # nm = CHR ''/'' # q)
      \<or> (prefix @ us = d \<and> CHR ''/'' # nm = us @ CHR ''/'' # q)"
    by (auto simp: append_eq_append_conv2)
  then have "d = prefix \<or> beneath d prefix"
  proof
    assume a: "prefix = d @ us \<and> us @ CHR ''/'' # nm = CHR ''/'' # q"
    show ?thesis
    proof (cases us)
      case Nil
      with a show ?thesis by simp
    next
      case (Cons u us')
      with a have "u = CHR ''/''" by simp
      with a Cons show ?thesis by (auto simp: beneath_def)
    qed
  next
    assume a: "prefix @ us = d \<and> CHR ''/'' # nm = us @ CHR ''/'' # q"
    show ?thesis
    proof (cases us)
      case Nil
      with a show ?thesis by simp
    next
      case (Cons u us')
      with a have "nm = us' @ CHR ''/'' # q" by simp
      with nm(2) show ?thesis by auto
    qed
  qed
  with ne show ?thesis by simp
qed

lemma recurse_not_beneath_ignored:
  "prefix = [] \<or> (\<not> ignore prefix \<and> (\<forall>d. beneath d prefix \<longrightarrow> \<not> ignore d)) \<Longrightarrow>
   list_all valid_name (map Name ds) \<Longrightarrow> list_all entry_ok ds \<Longrightarrow>
   p \<in> set (fst (recurse ignore rd root prefix ds)) \<Longrightarrow> beneath d p \<Longrightarrow> \<not> ignore d"
  "prefix = [] \<or> (\<not> ignore prefix \<and> (\<forall>d. beneath d prefix \<longrightarrow> \<not> ignore d)) \<Longrightarrow>
   list_all valid_name (map Name ds') \<Longrightarrow> list_all entry_ok ds' \<Longrightarrow>
   p \<in> set (fst (recurse_loop ignore rd root prefix ds')) \<Longrightarrow> beneath d p \<Longrightarrow> \<not> ignore d"
proof (induction ignore rd root prefix ds and ignore rd root prefix ds'
       arbitrary: p d and p d rule: recurse_recurse_loop.induct)
  case (1 ignore rd root prefix dirs)
  from "1.prems"(4) have "p \<in> set (fst (recurse_loop ignore rd root prefix dirs))"
    by (rule recurse_in_loop)
  moreover from "1.prems"(4) have "rd (Join root prefix) = None" by (auto split: option.splits)
  ultimately show ?case using "1.IH" "1.prems"(1,2,3,5) by blast
next
  case (2 ignore rd root prefix)
  then show ?case by simp
next
  case (3 ignore rd root prefix nm ds)
  from "3.prems"(2,3) have v: "valid_name nm" "list_all valid_name (map Name ds)" "list_all entry_ok ds"
    by simp_all
  have rest: "\<not> ignore d" if "p \<in> set (fst (recurse_loop ignore rd root prefix ds))"
    using "3.IH" "3.prems"(1,5) v that by blast
  show ?case
  proof (cases "HasSuffix nm ''.gz'' \<or> scan (nm @ ''.gz'') ds")
    case True
    with "3.prems"(4) have "p \<in> set (fst (recurse_loop ignore rd root prefix ds))"
      by (simp only: loop_File_skip)
    then show ?thesis by (rule rest)
  next
    case False
    with "3.prems"(4) have "p = Join prefix nm \<or> p \<in> set (fst (recurse_loop ignore rd root prefix ds))"
      by (auto simp: loop_File_send simp del: recurse_loop.simps)
    then show ?thesis
    proof
      assume "p = Join prefix nm"
      with beneath_Join[OF v(1), of d prefix] "3.prems"(1,5) show ?thesis by blast
    qed (rule rest)
  qed
next
  case (4 ignore rd root prefix nm sub ds)
  from "4.prems"(2,3) have v: "valid_name nm" "list_all valid_name (map Name ds)" "list_all entry_ok ds"
    "list_all valid_name (map Name sub)" "list_all entry_ok sub"
    by simp_all
  show ?case
  proof (cases "ignore (Join prefix nm)")
    case True
    with "4.prems"(4) have "p \<in> set (fst (recurse_loop ignore rd root prefix ds))"
      by (simp only: loop_Dir_skip)
    with True "4.IH"(1) "4.prems"(1,5) v show ?thesis by blast
  next
    case False
    have inv: "Join prefix nm = [] \<or>
        (\<not> ignore (Join prefix nm) \<and> (\<forall>d. beneath d (Join prefix nm) \<longrightarrow> \<not> ignore d))"
      using False beneath_Join[OF v(1), of _ prefix] "4.prems"(1) by blast
    have sub: "\<not> ignore d" if "p \<in> set (fst (recurse ignore rd root (Join prefix nm) sub))"
      using "4.IH"(2)[OF False inv v(4,5) that "4.prems"(5)] .
    show ?thesis
    proof (cases "snd (recurse ignore rd root (Join prefix nm) sub)")
      case (Some e)
      with "4.prems"(4) False have "p \<in> set (fst (recurse ignore rd root (Join prefix nm) sub))"
        by (simp add: loop_Dir_enter del: recurse.simps recurse_loop.simps)
      then show ?thesis by (rule sub)
    next
      case None
      with "4.prems"(4) False have "p \<in> set (fst (recurse ignore rd root (Join prefix nm) sub))
          \<or> p \<in> set (fst (recurse_loop ignore rd root prefix ds))"
        by (auto simp: loop_Dir_enter simp del: recurse.simps recurse_loop.simps)
      then show ?thesis
      proof
        assume a: "p \<in> set (fst (recurse_loop ignore rd root prefix ds))"
        have "(fst (recurse ignore rd root (Join prefix nm) sub), None)
                = recurse ignore rd root (Join prefix nm) sub"
          using None by (simp add: prod_eq_iff del: recurse.simps)
        from "4.IH"(3)[OF False this refl "4.prems"(1) v(2,3) a "4.prems"(5)] show ?thesis .
      qed (rule sub)
    qed
  qed
next
  case (5 ignore rd root prefix nm ds)
  then show ?case by simp
qed

text \<open>A call changes the contents of no file but \<open>path.gz\<close> and \<open>path.gz~\<close>.\<close>

lemma set_mtime_data:
  assumes "os_Stat fs path = Inr s" "set_mtime fs path m s = Inr fs1"
  shows "map_option f_data (fs_files fs1 q) = map_option f_data (fs_files fs q)"
  using set_mtime_Inr[OF assms] by (cases "q = path") auto

lemma os_WriteFile_other:
  "os_WriteFile fs p d perm = Inr fs' \<Longrightarrow> q \<noteq> p \<Longrightarrow> fs_files fs' q = fs_files fs q"
  by (auto dest: os_WriteFile_Inr)

lemma os_Chtimes_other:
  "os_Chtimes fs p m = Inr fs' \<Longrightarrow> q \<noteq> p \<Longrightarrow> fs_files fs' q = fs_files fs q"
  by (auto dest: os_Chtimes_Inr)

lemma os_Rename_other:
  "os_Rename fs p p' = Inr fs' \<Longrightarrow> q \<noteq> p \<Longrightarrow> q \<noteq> p' \<Longrightarrow> fs_files fs' q = fs_files fs q"
  by (auto dest: os_Rename_Inr)

lemma ISB_frame_data:
  fixes enc :: "'z encoder"
  assumes q: "q \<noteq> path @ ''.gz''" "q \<noteq> path @ ''.gz~''"
  shows "map_option f_data (fs_files (fst (IfSmallerBuffer enc fs path m out buf)) q)
           = map_option f_data (fs_files fs q)"
proof (cases rule: ISB_cases[of fs path enc m out buf])
  case (stat_err e)
  then show ?thesis by simp
next
  case (mtime_err s e)
  then show ?thesis by simp
next
  case (open_err s fs1 e)
  then show ?thesis by (simp add: set_mtime_data)
next
  case (copy_budget s fs1 f z1 w1 n)
  then show ?thesis by (simp add: set_mtime_data)
next
  case (read_err s fs1 f z1 w1 n e)
  then show ?thesis by (simp add: set_mtime_data)
next
  case (close_budget s fs1 f z1 w1 n w2)
  then show ?thesis by (simp add: set_mtime_data)
next
  case (not_smaller s fs1 f z1 w1 n w2)
  then show ?thesis by (simp add: set_mtime_data)
next
  case (write_err s fs1 f z1 w1 n w2 e)
  then show ?thesis by (simp add: set_mtime_data)
next
  case (chtimes_err s fs1 f z1 w1 n w2 fs2 e)
  from os_WriteFile_other[OF chtimes_err(7) q(2)] set_mtime_data[OF chtimes_err(1,2)] chtimes_err(9)
  show ?thesis by simp
next
  case (rename_err s fs1 f z1 w1 n w2 fs2 fs3 e)
  from os_Chtimes_other[OF rename_err(8) q(2)] os_WriteFile_other[OF rename_err(7) q(2)]
    set_mtime_data[OF rename_err(1,2)] rename_err(10)
  show ?thesis by simp
next
  case (renamed s fs1 f z1 w1 n w2 fs2 fs3 fs4)
  from os_Rename_other[OF renamed(9) q(2) q(1)] os_Chtimes_other[OF renamed(8) q(2)]
    os_WriteFile_other[OF renamed(7) q(2)] set_mtime_data[OF renamed(1,2)] renamed(10)
  show ?thesis by simp
qed

lemma worker_iter_fs:
  "fst (fst (worker_iter enc ignore root m s (fs, out, n)))
     = (if ignore s then fs
        else fst (IfSmallerBuffer enc fs (Join root s) m out (Some (32 * 1024))))"
  by (auto simp: worker_iter_def split: prod.splits option.splits)

lemma take_item_fs:
  "p_fs (take_item enc ignore root m (s, i) p) = p_fs p
   \<or> (\<not> ignore s \<and> (\<exists>out. p_fs (take_item enc ignore root m (s, i) p)
          = fst (IfSmallerBuffer enc (p_fs p) (Join root s) m out (Some (32 * 1024)))))"
proof (cases "g_ret (p_gs p ! i)")
  case (Some e)
  then show ?thesis by (simp add: take_item_def)
next
  case None
  obtain fs' out' n' err where w:
    "worker_iter enc ignore root m s (p_fs p, g_out (p_gs p ! i), g_n (p_gs p ! i)) = ((fs', out', n'), err)"
    by (metis prod.collapse)
  with None have "p_fs (take_item enc ignore root m (s, i) p) = fs'"
    by (simp add: take_item_def Let_def)
  moreover from w worker_iter_fs[of enc ignore root m s "p_fs p" "g_out (p_gs p ! i)" "g_n (p_gs p ! i)"]
  have "fs' = (if ignore s then p_fs p
        else fst (IfSmallerBuffer enc (p_fs p) (Join root s) m (g_out (p_gs p ! i)) (Some (32 * 1024))))"
    by simp
  ultimately show ?thesis by auto
qed

lemma run_pool_frame_data:
  fixes enc :: "'z encoder"
  assumes "\<And>s i. (s, i) \<in> set queue \<Longrightarrow> \<not> ignore s \<Longrightarrow>
             q \<noteq> Join root s @ ''.gz'' \<and> q \<noteq> Join root s @ ''.gz~''"
  shows "map_option f_data (fs_files (p_fs (run_pool enc ignore root m queue p)) q)
           = map_option f_data (fs_files (p_fs p) q)"
  using assms
proof (induction queue arbitrary: p)
  case Nil
  then show ?case by (simp add: run_pool_def)
next
  case (Cons item queue)
  obtain s i where item: "item = (s, i)" by (cases item)
  have step: "map_option f_data (fs_files (p_fs (take_item enc ignore root m (s, i) p)) q)
           = map_option f_data (fs_files (p_fs p) q)"
    using take_item_fs[of enc ignore root m s i p] Cons.prems[of s i] item
    by (auto simp: ISB_frame_data)
  have "run_pool enc ignore root m (item # queue) p
          = run_pool enc ignore root m queue (take_item enc ignore root m (s, i) p)"
    by (simp add: run_pool_def item)
  moreover have "map_option f_data (fs_files (p_fs (run_pool enc ignore root m queue
                    (take_item enc ignore root m (s, i) p))) q)
           = map_option f_data (fs_files (p_fs (take_item enc ignore root m (s, i) p)) q)"
    by (rule Cons.IH) (use Cons.prems in auto)
  ultimately show ?case using step by simp
qed

text \<open>The calls a pool records are made for items of the queue that the pattern does not match.\<close>

lemma take_item_calls:
  "c \<in> set (p_calls (take_item enc ignore root m (s, i) p)) \<Longrightarrow>
   c \<in> set (p_calls p) \<or> (fst (snd c) = s \<and> \<not> ignore s)"
  by (cases "g_ret (p_gs p ! i)")
     (auto simp: take_item_def Let_def split: prod.splits if_splits)

lemma run_pool_calls:
  "c \<in> set (p_calls (run_pool enc ignore root m queue p)) \<Longrightarrow>
   c \<in> set (p_calls p) \<or> (fst (snd c) \<in> fst ` set queue \<and> \<not> ignore (fst (snd c)))"
proof (induction queue arbitrary: p)
  case Nil
  then show ?case by (simp add: run_pool_def)
next
  case (Cons item queue)
  obtain s i where item: "item = (s, i)" by (cases item)
  from Cons.prems have "c \<in> set (p_calls (run_pool enc ignore root m queue (take_item enc ignore root m (s, i) p)))"
    by (simp add: run_pool_def item)
  from Cons.IH[OF this] take_item_calls[of c enc ignore root m s i p] item
  show ?case by auto
qed

subsection \<open>Modification times\<close>

lemma has_mtime_iff: "has_mtime fs q m \<longleftrightarrow> (\<exists>f. fs_files fs q = Some f \<and> f_modTime f = m)"
  by (auto simp: has_mtime_def split: option.splits)

lemma set_mtime_has_mtime:
  assumes "os_Stat fs path = Inr s" "set_mtime fs path m s = Inr fs1" "storable m"
  shows "has_mtime fs1 path m" and "has_mtime fs q m \<Longrightarrow> has_mtime fs1 q m"
proof -
  from set_mtime_Inr[OF assms(1,2)] assms(3) obtain f where f: "fs_files fs path = Some f"
    "fs1 = fs\<lparr>fs_files := (fs_files fs)(path \<mapsto> f\<lparr>f_modTime := m\<rparr>)\<rparr>" by blast
  then show "has_mtime fs1 path m" by (simp add: has_mtime_def)
  assume "has_mtime fs q m"
  with f show "has_mtime fs1 q m" by (cases "q = path") (simp_all add: has_mtime_def)
qed

lemma os_WriteFile_has_mtime:
  "os_WriteFile fs p d perm = Inr fs' \<Longrightarrow> q \<noteq> p \<Longrightarrow> has_mtime fs q m \<Longrightarrow> has_mtime fs' q m"
  by (auto simp: has_mtime_def dest!: os_WriteFile_Inr)

lemma os_Chtimes_has_mtime:
  assumes "os_Chtimes fs p m = Inr fs'" "storable m"
  shows "has_mtime fs' p m" and "has_mtime fs q m \<Longrightarrow> has_mtime fs' q m"
proof -
  from os_Chtimes_Inr[OF assms(1)] assms(2) obtain f where f: "fs_files fs p = Some f"
    "fs' = fs\<lparr>fs_files := (fs_files fs)(p \<mapsto> f\<lparr>f_modTime := m\<rparr>)\<rparr>" by blast
  then show "has_mtime fs' p m" by (simp add: has_mtime_def)
  assume "has_mtime fs q m"
  with f show "has_mtime fs' q m" by (cases "q = p") (simp_all add: has_mtime_def)
qed

lemma os_Rename_has_mtime:
  assumes "os_Rename fs p p' = Inr fs'"
  shows "has_mtime fs p m \<Longrightarrow> has_mtime fs' p' m"
    and "q \<noteq> p \<Longrightarrow> q \<noteq> p' \<Longrightarrow> has_mtime fs q m \<Longrightarrow> has_mtime fs' q m"
    and "p \<noteq> p' \<Longrightarrow> fs_files fs' p = None"
proof -
  from os_Rename_Inr[OF assms] obtain f where f: "fs_files fs p = Some f"
    "fs' = fs\<lparr>fs_files := ((fs_files fs)(p := None))(p' \<mapsto> f)\<rparr>" by blast
  then show "has_mtime fs p m \<Longrightarrow> has_mtime fs' p' m" by (simp add: has_mtime_def)
  from f show "q \<noteq> p \<Longrightarrow> q \<noteq> p' \<Longrightarrow> has_mtime fs q m \<Longrightarrow> has_mtime fs' q m"
    by (simp add: has_mtime_def)
  from f show "p \<noteq> p' \<Longrightarrow> fs_files fs' p = None" by simp
qed

text \<open>
  A call for a storable target keeps the target time on every file that carries it, except
  on its own temporary file.
\<close>

lemma ISB_keeps_mtime:
  fixes enc :: "'z encoder"
  assumes m: "storable m" and q: "q \<noteq> path @ ''.gz~''" and h: "has_mtime fs q m"
  shows "has_mtime (fst (IfSmallerBuffer enc fs path m out buf)) q m"
proof (cases rule: ISB_cases[of fs path enc m out buf])
  case (stat_err e)
  with h show ?thesis by simp
next
  case (mtime_err s e)
  with h show ?thesis by simp
next
  case (open_err s fs1 e)
  with set_mtime_has_mtime(2)[OF open_err(1,2) m h] show ?thesis by simp
next
  case (copy_budget s fs1 f z1 w1 n)
  with set_mtime_has_mtime(2)[OF copy_budget(1,2) m h] show ?thesis by simp
next
  case (read_err s fs1 f z1 w1 n e)
  with set_mtime_has_mtime(2)[OF read_err(1,2) m h] show ?thesis by simp
next
  case (close_budget s fs1 f z1 w1 n w2)
  with set_mtime_has_mtime(2)[OF close_budget(1,2) m h] show ?thesis by simp
next
  case (not_smaller s fs1 f z1 w1 n w2)
  with set_mtime_has_mtime(2)[OF not_smaller(1,2) m h] show ?thesis by simp
next
  case (write_err s fs1 f z1 w1 n w2 e)
  with set_mtime_has_mtime(2)[OF write_err(1,2) m h] show ?thesis by simp
next
  case (chtimes_err s fs1 f z1 w1 n w2 fs2 e)
  from os_WriteFile_has_mtime[OF chtimes_err(7) q set_mtime_has_mtime(2)[OF chtimes_err(1,2) m h]]
    chtimes_err(9) show ?thesis by simp
next
  case (rename_err s fs1 f z1 w1 n w2 fs2 fs3 e)
  from os_Chtimes_has_mtime(2)[OF rename_err(8) m
        os_WriteFile_has_mtime[OF rename_err(7) q set_mtime_has_mtime(2)[OF rename_err(1,2) m h]]]
    rename_err(10) show ?thesis by simp
next
  case (renamed s fs1 f z1 w1 n w2 fs2 fs3 fs4)
  have h3: "has_mtime fs3 q m"
    by (rule os_Chtimes_has_mtime(2)[OF renamed(8) m
        os_WriteFile_has_mtime[OF renamed(7) q set_mtime_has_mtime(2)[OF renamed(1,2) m h]]])
  have t3: "has_mtime fs3 (path @ ''.gz~'') m"
    by (rule os_Chtimes_has_mtime(1)[OF renamed(8) m])
  have "has_mtime fs4 q m"
  proof (cases "q = path @ ''.gz''")
    case True
    with os_Rename_has_mtime(1)[OF renamed(9) t3] show ?thesis by simp
  next
    case False
    with os_Rename_has_mtime(2)[OF renamed(9) q _ h3] show ?thesis by simp
  qed
  with renamed(10) show ?thesis by simp
qed

lemma ISB_no_error_staged:
  fixes enc :: "'z encoder"
  assumes "IfSmallerBuffer enc fs path m out buf = (fs', out', changed, None)"
  obtains s fs1 where "os_Stat fs path = Inr s" "set_mtime fs path m s = Inr fs1"
  by (cases rule: ISB_cases[of fs path enc m out buf]) (use assms in \<open>auto\<close>)

text \<open>What a call that returns no error leaves behind, for a storable target.\<close>

lemma ISB_sets_mtime:
  fixes enc :: "'z encoder"
  assumes m: "storable m"
    and r: "IfSmallerBuffer enc fs path m out buf = (fs', out', changed, None)"
  shows "has_mtime fs' path m"
    and "changed \<Longrightarrow> has_mtime fs' (path @ ''.gz'') m \<and> fs_files fs' (path @ ''.gz~'') = None"
proof -
  from r obtain s fs1 where st: "os_Stat fs path = Inr s" "set_mtime fs path m s = Inr fs1"
    by (rule ISB_no_error_staged)
  from ISB_source_mtime[OF st r] m show "has_mtime fs' path m"
    by (auto simp: has_mtime_def)
  assume "changed"
  with r have r': "IfSmallerBuffer enc fs path m out buf = (fs', out', True, None)" by simp
  show "has_mtime fs' (path @ ''.gz'') m \<and> fs_files fs' (path @ ''.gz~'') = None"
  proof (cases rule: ISB_cases[of fs path enc m out buf])
    case (renamed s fs1 d z1 w1 n w2 fs2 fs3 fs4)
    from r' renamed(10) have fs': "fs' = fs4" by simp
    from ISB_done_store[OF renamed(1,2,7,8,9)] m obtain g where
      "fs_files fs4 (path @ ''.gz'') = Some g" "f_modTime g = m"
      "fs_files fs4 (path @ ''.gz~'') = None" by blast
    then show ?thesis unfolding fs' by (simp add: has_mtime_def)
  qed (use r' in \<open>simp_all\<close>)
qed

lemma gz_not_tmp: "a @ ''.gz'' \<noteq> b @ ''.gz~''"
proof
  assume "a @ ''.gz'' = b @ ''.gz~''"
  then have "last (a @ ''.gz'') = last (b @ ''.gz~'')" by simp
  then show False by simp
qed

text \<open>What a goroutine in the loop of \<open>worker\<close> does with an item the pattern does not match.\<close>

lemma take_item_call:
  fixes enc :: "'z encoder"
  assumes "g_ret (p_gs p ! i) = None" "\<not> ignore s"
    and "IfSmallerBuffer enc (p_fs p) (Join root s) m (g_out (p_gs p ! i)) (Some (32 * 1024))
           = (fs', out', changed, err)"
  shows "take_item enc ignore root m (s, i) p
           = \<lparr>p_fs = fs',
              p_gs = (p_gs p)[i := \<lparr>g_n = (if changed \<and> err = None then g_n (p_gs p ! i) + 1
                                          else g_n (p_gs p ! i)),
                                   g_out = out', g_ret = err\<rparr>],
              p_calls = p_calls p @ [(i, s, changed, err)]\<rparr>"
  using assms by (cases err) (simp_all add: take_item_def worker_iter_def Let_def)

lemma take_item_purge:
  "g_ret (p_gs p ! i) = Some e \<Longrightarrow> take_item enc ignore root m (s, i) p = p"
  by (simp add: take_item_def)

lemma take_item_mtime_inv:
  fixes enc :: "'z encoder"
  assumes m: "storable m" and s: "s \<in> U"
    and U: "\<And>a b. a \<in> U \<Longrightarrow> b \<in> U \<Longrightarrow> Join root b \<noteq> Join root a @ ''.gz~''"
    and inv: "\<And>c. c \<in> set (p_calls p) \<Longrightarrow> fst (snd c) \<in> U \<and>
                 (snd (snd (snd c)) = None \<longrightarrow>
                    has_mtime (p_fs p) (Join root (fst (snd c))) m
                  \<and> (fst (snd (snd c)) \<longrightarrow> has_mtime (p_fs p) (Join root (fst (snd c)) @ ''.gz'') m))"
    and c: "c \<in> set (p_calls (take_item enc ignore root m (s, i) p))"
  shows "fst (snd c) \<in> U \<and>
           (snd (snd (snd c)) = None \<longrightarrow>
              has_mtime (p_fs (take_item enc ignore root m (s, i) p)) (Join root (fst (snd c))) m
            \<and> (fst (snd (snd c)) \<longrightarrow>
                 has_mtime (p_fs (take_item enc ignore root m (s, i) p)) (Join root (fst (snd c)) @ ''.gz'') m))"
proof (cases "g_ret (p_gs p ! i)")
  case (Some e)
  with inv[of c] c show ?thesis by (simp add: take_item_purge)
next
  case None
  show ?thesis
  proof (cases "ignore s")
    case True
    with inv[of c] c show ?thesis by (simp add: take_item_ignored)
  next
    case False
    obtain fs' out' changed err where r:
      "IfSmallerBuffer enc (p_fs p) (Join root s) m (g_out (p_gs p ! i)) (Some (32 * 1024))
           = (fs', out', changed, err)" by (metis prod.collapse)
    note t = take_item_call[of p i ignore s enc root m fs' out' changed err, OF None False r]
    have fs': "fs' = fst (IfSmallerBuffer enc (p_fs p) (Join root s) m (g_out (p_gs p ! i)) (Some (32 * 1024)))"
      using r by simp
    from c t have "c \<in> set (p_calls p) \<or> c = (i, s, changed, err)" by auto
    then show ?thesis
    proof
      assume old: "c \<in> set (p_calls p)"
      from inv[OF old] have cu: "fst (snd c) \<in> U" by simp
      have keep: "has_mtime fs' q m" if "has_mtime (p_fs p) q m" "q \<noteq> Join root s @ ''.gz~''" for q
        unfolding fs' using that by (intro ISB_keeps_mtime[OF m]) simp_all
      from U[OF s cu] have n1: "Join root (fst (snd c)) \<noteq> Join root s @ ''.gz~''" .
      have n2: "Join root (fst (snd c)) @ ''.gz'' \<noteq> Join root s @ ''.gz~''" by (rule gz_not_tmp)
      from inv[OF old] keep n1 n2 cu show ?thesis by (simp add: t)
    next
      assume new: "c = (i, s, changed, err)"
      show ?thesis
      proof (cases err)
        case (Some e)
        with new s show ?thesis by simp
      next
        case None
        with r have r': "IfSmallerBuffer enc (p_fs p) (Join root s) m (g_out (p_gs p ! i)) (Some (32 * 1024))
           = (fs', out', changed, None)" by simp
        from ISB_sets_mtime[OF m r'] new s show ?thesis by (simp add: t)
      qed
    qed
  qed
qed

lemma run_pool_mtime_inv:
  fixes enc :: "'z encoder"
  assumes m: "storable m" and q: "fst ` set queue \<subseteq> U"
    and U: "\<And>a b. a \<in> U \<Longrightarrow> b \<in> U \<Longrightarrow> Join root b \<noteq> Join root a @ ''.gz~''"
    and inv: "\<And>c. c \<in> set (p_calls p) \<Longrightarrow> fst (snd c) \<in> U \<and>
                 (snd (snd (snd c)) = None \<longrightarrow>
                    has_mtime (p_fs p) (Join root (fst (snd c))) m
                  \<and> (fst (snd (snd c)) \<longrightarrow> has_mtime (p_fs p) (Join root (fst (snd c)) @ ''.gz'') m))"
    and c: "c \<in> set (p_calls (run_pool enc ignore root m queue p))"
  shows "fst (snd c) \<in> U \<and>
           (snd (snd (snd c)) = None \<longrightarrow>
              has_mtime (p_fs (run_pool enc ignore root m queue p)) (Join root (fst (snd c))) m
            \<and> (fst (snd (snd c)) \<longrightarrow>
                 has_mtime (p_fs (run_pool enc ignore root m queue p)) (Join root (fst (snd c)) @ ''.gz'') m))"
  using q inv c
proof (induction queue arbitrary: p)
  case Nil
  then show ?case by (simp add: run_pool_def)
next
  case (Cons item queue)
  obtain s i where item: "item = (s, i)" by (cases item)
  let ?p = "take_item enc ignore root m (s, i) p"
  have eq: "run_pool enc ignore root m (item # queue) p = run_pool enc ignore root m queue ?p"
    by (simp add: run_pool_def item)
  from Cons.prems(1) item have s: "s \<in> U" and q': "fst ` set queue \<subseteq> U" by auto
  have inv': "fst (snd c) \<in> U \<and>
                 (snd (snd (snd c)) = None \<longrightarrow>
                    has_mtime (p_fs ?p) (Join root (fst (snd c))) m
                  \<and> (fst (snd (snd c)) \<longrightarrow> has_mtime (p_fs ?p) (Join root (fst (snd c)) @ ''.gz'') m))"
    if "c \<in> set (p_calls ?p)" for c
    by (rule take_item_mtime_inv[OF m s U Cons.prems(2) that])
  from Cons.prems(3) have "c \<in> set (p_calls (run_pool enc ignore root m queue ?p))"
    by (simp add: eq)
  from Cons.IH[OF q' inv' this] show ?case by (simp add: eq)
qed

lemmas ev_run = Recursive_def ignore_expr_def re_Compile_def close_group_def MatchString_def
  tree0_def sched0_def Join_def HasSuffix_def run_pool_def assign_def start_pool_def
  take_item_def worker_iter_def IfSmallerBuffer_def publish_def pub_order_def Let_def
  zero_time_def UnixNano_storable storable_def

lemma assign_items: "(s, i) \<in> set (assign sch c items) \<Longrightarrow> s \<in> set items"
  by (auto simp: assign_def dest: set_zip_leftD)

lemma Recursive_Returned:
  fixes enc :: "'z encoder"
  assumes "compile (ignore_expr ignorePattern) = Inr ignore"
    and "Recursive compile enc sch fs tree root m concurrency ignorePattern = Returned fs' total' err"
  shows "fs' = p_fs (run_pool enc ignore root m
                  (assign sch (nat concurrency)
                     (fst (recurse ignore (\<lambda>p. fs_fault fs (ReadDir p)) root [] tree)))
                  (start_pool (nat concurrency) fs))"
  using assms
  by (auto simp: Recursive_def Let_def split: if_splits prod.splits simp del: recurse.simps)

lemma pool_mtimes:
  fixes enc :: "'z encoder"
  assumes m: "storable m" and n: "no_stale_tmp root (map fst queue)"
    and c: "c \<in> set (p_calls (run_pool enc ignore root m queue (start_pool k fs)))"
    and e: "snd (snd (snd c)) = None"
  shows "has_mtime (p_fs (run_pool enc ignore root m queue (start_pool k fs)))
           (Join root (fst (snd c))) m
       \<and> (fst (snd (snd c)) \<longrightarrow>
            has_mtime (p_fs (run_pool enc ignore root m queue (start_pool k fs)))
              (Join root (fst (snd c)) @ ''.gz'') m)"
proof -
  have U: "Join root b \<noteq> Join root a @ ''.gz~''"
    if "a \<in> fst ` set queue" "b \<in> fst ` set queue" for a b
    using n that by (auto simp: no_stale_tmp_def list_all_iff)
  have inv: "fst (snd c) \<in> fst ` set queue \<and>
                 (snd (snd (snd c)) = None \<longrightarrow>
                    has_mtime (p_fs (start_pool k fs)) (Join root (fst (snd c))) m
                  \<and> (fst (snd (snd c)) \<longrightarrow>
                       has_mtime (p_fs (start_pool k fs)) (Join root (fst (snd c)) @ ''.gz'') m))"
    if "c \<in> set (p_calls (start_pool k fs))" for c
    using that by (simp add: start_pool_def)
  from run_pool_mtime_inv[OF m subset_refl U inv c] e show ?thesis by simp
qed

text \<open>
  C8, as stated, fails for the zero \<open>time.Time\<close>, the default target of the program: the source
  \<open>/r/a\<close> carries the time 5, the call for the zero target reports a change, and afterwards
  the source still carries 5 and the artifact carries the time of its writing, 100. It
  fails as well for a target beyond the range of \<open>UnixNano\<close>: for the target \<open>2 ^ 63\<close> the
  source ends with the time \<open>- (2 ^ 63)\<close>.
\<close>

theorem C8_zero_target_is_not_stored:
  "snd (IfSmallerBuffer rle fs0 ''/r/a'' zero_time [] None) = ([7, 6], True, None)
   \<and> fs_files fs0 ''/r/a'' = Some \<lparr>f_data = [7, 7, 7, 7, 7, 7], f_modTime = 5, f_perm = 420\<rparr>
   \<and> fs_files (fst (IfSmallerBuffer rle fs0 ''/r/a'' zero_time [] None)) ''/r/a''
       = Some \<lparr>f_data = [7, 7, 7, 7, 7, 7], f_modTime = 5, f_perm = 420\<rparr>
   \<and> fs_files (fst (IfSmallerBuffer rle fs0 ''/r/a'' zero_time [] None)) ''/r/a.gz''
       = Some \<lparr>f_data = [7, 6], f_modTime = 100, f_perm = 420\<rparr>
   \<and> zero_time \<noteq> 5 \<and> zero_time \<noteq> 100
   \<and> snd (IfSmallerBuffer rle fs0 ''/r/a'' (2 ^ 63) [] None) = ([7, 6], True, None)
   \<and> fs_files (fst (IfSmallerBuffer rle fs0 ''/r/a'' (2 ^ 63) [] None)) ''/r/a''
       = Some \<lparr>f_data = [7, 7, 7, 7, 7, 7], f_modTime = - (2 ^ 63), f_perm = 420\<rparr>"
  by (simp add: IfSmallerBuffer_def ev zero_time_def UnixNano_def)

text \<open>
  C8, amended: for a target time that \<open>os.Chtimes\<close> stores as it is (not the zero
  \<open>time.Time\<close>, and within the range of \<open>UnixNano\<close>), the claim holds. When the time of the
  source differs from the target, \<open>os.Chtimes\<close> is called before the file is opened: if it
  fails, the call returns its error with \<open>out\<close> untouched, and once it has succeeded the
  source carries the target time in every store the call can leave. A call that returns no
  error leaves the source with the target time. The temporary file carries the target time
  when \<open>os.Rename\<close> is called (a failing rename leaves it so), and after a call that reports a
  change the source and the artifact \<open>path.gz\<close> both carry the target time and \<open>path.gz~\<close> is
  gone. Over a run of the pool, and so of \<open>Recursive\<close>, every call that returned no error has
  left its source, and its artifact if it reported a change, with the target time in the final
  store, provided no queued path is the temporary path \<open>name.gz~\<close> of a queued path.
\<close>

theorem C8_timestamps:
  fixes enc :: "'z encoder"
  assumes "storable m"
  shows "(os_Stat fs path = Inr s \<and> st_modTime s \<noteq> m \<and> os_Chtimes fs path m = Inl e \<longrightarrow>
            IfSmallerBuffer enc fs path m out buf = (fs, out, False, Some e))
       \<and> (os_Stat fs path = Inr s \<and> set_mtime fs path m s = Inr fs1
            \<and> IfSmallerBuffer enc fs path m out buf = (fs', out', changed, err) \<longrightarrow>
              (\<exists>f. fs_files fs1 path = Some f \<and> f_modTime f = m)
            \<and> (\<exists>f. fs_files fs' path = Some f \<and> f_modTime f = m))
       \<and> (IfSmallerBuffer enc fs path m out buf = (fs', out', changed, None) \<longrightarrow>
            (\<exists>f. fs_files fs' path = Some f \<and> f_modTime f = m))
       \<and> (os_Stat fs path = Inr s \<and> set_mtime fs path m s = Inr fs1 \<and> os_Open fs1 path = Inr d
            \<and> copy_file enc fs1 path buf d s = (z1, w1, n, None) \<and> gz_Close enc z1 w1 = (w2, None)
            \<and> int (length (lw_buf w2)) < n
            \<and> os_WriteFile fs1 (path @ ''.gz~'') (lw_buf w2) (st_perm s) = Inr fs2
            \<and> os_Chtimes fs2 (path @ ''.gz~'') m = Inr fs3
            \<and> os_Rename fs3 (path @ ''.gz~'') (path @ ''.gz'') = Inl e \<longrightarrow>
              IfSmallerBuffer enc fs path m out buf = (fs3, lw_buf w2, False, Some e)
            \<and> (\<exists>g. fs_files fs3 (path @ ''.gz~'') = Some g \<and> f_modTime g = m))
       \<and> (IfSmallerBuffer enc fs path m out buf = (fs', out', True, err) \<longrightarrow>
            (\<exists>f g. fs_files fs' path = Some f \<and> f_modTime f = m
                 \<and> fs_files fs' (path @ ''.gz'') = Some g \<and> f_modTime g = m
                 \<and> fs_files fs' (path @ ''.gz~'') = None))
       \<and> (no_stale_tmp root (map fst queue)
            \<and> c \<in> set (p_calls (run_pool enc ignore root m queue (start_pool k fs)))
            \<and> snd (snd (snd c)) = None \<longrightarrow>
              has_mtime (p_fs (run_pool enc ignore root m queue (start_pool k fs)))
                (Join root (fst (snd c))) m
            \<and> (fst (snd (snd c)) \<longrightarrow>
                 has_mtime (p_fs (run_pool enc ignore root m queue (start_pool k fs)))
                   (Join root (fst (snd c)) @ ''.gz'') m))
       \<and> (compile (ignore_expr ignorePattern) = Inr ignore
            \<and> Recursive compile enc sch fs tree root m concurrency ignorePattern
                 = Returned fs'' total' err''
            \<and> items = fst (recurse ignore (\<lambda>p. fs_fault fs (ReadDir p)) root [] tree)
            \<and> no_stale_tmp root items
            \<and> c \<in> set (p_calls (run_pool enc ignore root m (assign sch (nat concurrency) items)
                                   (start_pool (nat concurrency) fs)))
            \<and> snd (snd (snd c)) = None \<longrightarrow>
              has_mtime fs'' (Join root (fst (snd c))) m
            \<and> (fst (snd (snd c)) \<longrightarrow> has_mtime fs'' (Join root (fst (snd c)) @ ''.gz'') m))"
proof (intro conjI impI)
  note m = assms
  {
    assume "os_Stat fs path = Inr s \<and> st_modTime s \<noteq> m \<and> os_Chtimes fs path m = Inl e"
    then have "os_Stat fs path = Inr s" "set_mtime fs path m s = Inl e"
      by (simp_all add: set_mtime_def)
    then show "IfSmallerBuffer enc fs path m out buf = (fs, out, False, Some e)"
      by (rule ISB_mtime_err)
  }
  {
    assume a: "os_Stat fs path = Inr s \<and> set_mtime fs path m s = Inr fs1
            \<and> IfSmallerBuffer enc fs path m out buf = (fs', out', changed, err)"
    then have st: "os_Stat fs path = Inr s" "set_mtime fs path m s = Inr fs1"
      and r: "IfSmallerBuffer enc fs path m out buf = (fs', out', changed, err)" by simp_all
    from set_mtime_has_mtime(1)[OF st m]
    show "\<exists>f. fs_files fs1 path = Some f \<and> f_modTime f = m" by (simp add: has_mtime_iff)
    from ISB_source_mtime[OF st r] m
    show "\<exists>f. fs_files fs' path = Some f \<and> f_modTime f = m" by auto
  }
  {
    assume r: "IfSmallerBuffer enc fs path m out buf = (fs', out', changed, None)"
    from ISB_sets_mtime(1)[OF m r]
    show "\<exists>f. fs_files fs' path = Some f \<and> f_modTime f = m" by (simp add: has_mtime_iff)
  }
  {
    assume a: "os_Stat fs path = Inr s \<and> set_mtime fs path m s = Inr fs1 \<and> os_Open fs1 path = Inr d
            \<and> copy_file enc fs1 path buf d s = (z1, w1, n, None) \<and> gz_Close enc z1 w1 = (w2, None)
            \<and> int (length (lw_buf w2)) < n
            \<and> os_WriteFile fs1 (path @ ''.gz~'') (lw_buf w2) (st_perm s) = Inr fs2
            \<and> os_Chtimes fs2 (path @ ''.gz~'') m = Inr fs3
            \<and> os_Rename fs3 (path @ ''.gz~'') (path @ ''.gz'') = Inl e"
    then show "IfSmallerBuffer enc fs path m out buf = (fs3, lw_buf w2, False, Some e)"
      by (elim conjE) (rule ISB_rename_err)
    from a have "os_Chtimes fs2 (path @ ''.gz~'') m = Inr fs3" by simp
    from os_Chtimes_has_mtime(1)[OF this m]
    show "\<exists>g. fs_files fs3 (path @ ''.gz~'') = Some g \<and> f_modTime g = m"
      by (simp add: has_mtime_iff)
  }
  {
    assume r: "IfSmallerBuffer enc fs path m out buf = (fs', out', True, err)"
    have "err = None"
      by (cases rule: ISB_cases[of fs path enc m out buf]) (use r in \<open>simp_all\<close>)
    with r have r': "IfSmallerBuffer enc fs path m out buf = (fs', out', True, None)" by simp
    from ISB_sets_mtime(1)[OF m r'] ISB_sets_mtime(2)[OF m r']
    show "\<exists>f g. fs_files fs' path = Some f \<and> f_modTime f = m
                 \<and> fs_files fs' (path @ ''.gz'') = Some g \<and> f_modTime g = m
                 \<and> fs_files fs' (path @ ''.gz~'') = None"
      by (auto simp: has_mtime_iff)
  }
  {
    assume a: "no_stale_tmp root (map fst queue)
            \<and> c \<in> set (p_calls (run_pool enc ignore root m queue (start_pool k fs)))
            \<and> snd (snd (snd c)) = None"
    then have *: "has_mtime (p_fs (run_pool enc ignore root m queue (start_pool k fs)))
           (Join root (fst (snd c))) m
       \<and> (fst (snd (snd c)) \<longrightarrow>
            has_mtime (p_fs (run_pool enc ignore root m queue (start_pool k fs)))
              (Join root (fst (snd c)) @ ''.gz'') m)"
      by (intro pool_mtimes[OF m]) simp_all
    from * show "has_mtime (p_fs (run_pool enc ignore root m queue (start_pool k fs)))
                (Join root (fst (snd c))) m" by simp
    assume "fst (snd (snd c))"
    with * show "has_mtime (p_fs (run_pool enc ignore root m queue (start_pool k fs)))
                   (Join root (fst (snd c)) @ ''.gz'') m" by simp
  }
  {
    assume a: "compile (ignore_expr ignorePattern) = Inr ignore
            \<and> Recursive compile enc sch fs tree root m concurrency ignorePattern
                 = Returned fs'' total' err''
            \<and> items = fst (recurse ignore (\<lambda>p. fs_fault fs (ReadDir p)) root [] tree)
            \<and> no_stale_tmp root items
            \<and> c \<in> set (p_calls (run_pool enc ignore root m (assign sch (nat concurrency) items)
                                   (start_pool (nat concurrency) fs)))
            \<and> snd (snd (snd c)) = None"
    let ?q = "assign sch (nat concurrency) items"
    from a have cp: "compile (ignore_expr ignorePattern) = Inr ignore"
      and rr: "Recursive compile enc sch fs tree root m concurrency ignorePattern
                 = Returned fs'' total' err''"
      and it: "items = fst (recurse ignore (\<lambda>p. fs_fault fs (ReadDir p)) root [] tree)"
      and ns: "no_stale_tmp root items"
      and cc: "c \<in> set (p_calls (run_pool enc ignore root m ?q (start_pool (nat concurrency) fs)))"
      and ee: "snd (snd (snd c)) = None" by blast+
    have fs'': "fs'' = p_fs (run_pool enc ignore root m ?q (start_pool (nat concurrency) fs))"
      unfolding it by (rule Recursive_Returned[OF cp rr])
    have "set (map fst ?q) \<subseteq> set items" by (auto dest: assign_items)
    with ns have "no_stale_tmp root (map fst ?q)"
      by (auto simp: no_stale_tmp_def list_all_iff)
    from pool_mtimes[OF m this cc ee]
    have *: "has_mtime (p_fs (run_pool enc ignore root m ?q (start_pool (nat concurrency) fs)))
           (Join root (fst (snd c))) m
       \<and> (fst (snd (snd c)) \<longrightarrow>
            has_mtime (p_fs (run_pool enc ignore root m ?q (start_pool (nat concurrency) fs)))
              (Join root (fst (snd c)) @ ''.gz'') m)" .
    from * show "has_mtime fs'' (Join root (fst (snd c))) m" by (simp add: fs'')
    assume "fst (snd (snd c))"
    with * show "has_mtime fs'' (Join root (fst (snd c)) @ ''.gz'') m" by (simp add: fs'')
  }
qed

theorem C8_timestamps_witness:
  "storable 9
   \<and> snd (IfSmallerBuffer rle fs0 ''/r/a'' 9 [] None) = ([7, 6], True, None)
   \<and> (\<exists>f g. fs_files (fst (IfSmallerBuffer rle fs0 ''/r/a'' 9 [] None)) ''/r/a'' = Some f
         \<and> f_modTime f = 9
         \<and> fs_files (fst (IfSmallerBuffer rle fs0 ''/r/a'' 9 [] None)) ''/r/a.gz'' = Some g
         \<and> f_modTime g = 9
         \<and> fs_files (fst (IfSmallerBuffer rle fs0 ''/r/a'' 9 [] None)) ''/r/a.gz~'' = None)
   \<and> fs_files fs0 ''/r/a'' = Some \<lparr>f_data = [7, 7, 7, 7, 7, 7], f_modTime = 5, f_perm = 420\<rparr>
   \<and> IfSmallerBuffer rle (failing (Chtimes ''/r/a'')) ''/r/a'' 9 [1] None
        = (failing (Chtimes ''/r/a''), [1], False, Some (OSError ''injected''))
   \<and> no_stale_tmp ''/r'' [''a'', ''d'']
   \<and> has_mtime (p_fs (run_pool rle (\<lambda>p. False) ''/r'' 9 [(''a'', 0), (''d'', 0)] (start_pool 1 fs0)))
         ''/r/a'' 9
   \<and> has_mtime (p_fs (run_pool rle (\<lambda>p. False) ''/r'' 9 [(''a'', 0), (''d'', 0)] (start_pool 1 fs0)))
         ''/r/a.gz'' 9
   \<and> has_mtime (p_fs (run_pool rle (\<lambda>p. False) ''/r'' 9 [(''a'', 0), (''d'', 0)] (start_pool 1 fs0)))
         ''/r/d'' 9
   \<and> (\<exists>fs'. Recursive re_Compile rle sched0 fs0 tree0 ''/r'' 9 1 [''sub/ignored''] = Returned fs' 1 None
          \<and> has_mtime fs' ''/r/a'' 9 \<and> has_mtime fs' ''/r/a.gz'' 9 \<and> has_mtime fs' ''/r/b'' 9)"
proof -
  note t = C8_timestamps[OF storable_9]
  have a': "snd (IfSmallerBuffer rle fs0 ''/r/a'' 9 [] None) = ([7, 6], True, None)"
    by (simp add: IfSmallerBuffer_def ev UnixNano_storable storable_def zero_time_def)
  then have a: "IfSmallerBuffer rle fs0 ''/r/a'' 9 [] None
             = (fst (IfSmallerBuffer rle fs0 ''/r/a'' 9 [] None), [7, 6], True, None)"
    by (metis prod.collapse)
  from t[THEN conjunct2, THEN conjunct2, THEN conjunct2, THEN conjunct2, THEN conjunct1, rule_format, OF a]
  have ex: "\<exists>f g. fs_files (fst (IfSmallerBuffer rle fs0 ''/r/a'' 9 [] None)) ''/r/a'' = Some f
         \<and> f_modTime f = 9
         \<and> fs_files (fst (IfSmallerBuffer rle fs0 ''/r/a'' 9 [] None)) ''/r/a.gz'' = Some g
         \<and> f_modTime g = 9
         \<and> fs_files (fst (IfSmallerBuffer rle fs0 ''/r/a'' 9 [] None)) ''/r/a.gz~'' = None"
    by simp
  have f0: "fs_files fs0 ''/r/a'' = Some \<lparr>f_data = [7, 7, 7, 7, 7, 7], f_modTime = 5, f_perm = 420\<rparr>"
    by (simp add: ev)
  have h: "os_Stat (failing (Chtimes ''/r/a'')) ''/r/a'' = Inr \<lparr>st_size = 6, st_modTime = 5, st_perm = 420\<rparr>
         \<and> st_modTime \<lparr>st_size = 6, st_modTime = 5, st_perm = 420\<rparr> \<noteq> (9::int)
         \<and> os_Chtimes (failing (Chtimes ''/r/a'')) ''/r/a'' 9 = Inl (OSError ''injected'')"
    by (simp add: ev)
  note c1 = t[THEN conjunct1, rule_format, OF h, of rle "[1]" None]
  let ?q = "[(''a'', 0::nat), (''d'', 0)]"
  let ?P = "run_pool rle (\<lambda>p. False) ''/r'' 9 ?q (start_pool 1 fs0)"
  have calls: "p_calls ?P = [(0, ''a'', True, None), (0, ''d'', False, None)]"
    by (simp add: ev_run ev)
  have ns: "no_stale_tmp ''/r'' [''a'', ''d'']"
    by (simp add: no_stale_tmp_def Join_def)
  note pool = t[THEN conjunct2, THEN conjunct2, THEN conjunct2, THEN conjunct2, THEN conjunct2,
       THEN conjunct1, rule_format, of "''/r''" ?q _ rle "\<lambda>p. False" 1 fs0]
  from pool[of "(0, ''a'', True, None)"] ns calls
  have pa: "has_mtime (p_fs ?P) ''/r/a'' 9 \<and> has_mtime (p_fs ?P) ''/r/a.gz'' 9"
    by (simp add: Join_def)
  from pool[of "(0, ''d'', False, None)"] ns calls
  have pd: "has_mtime (p_fs ?P) ''/r/d'' 9"
    by (simp add: Join_def)
  let ?ig = "projr (re_Compile (ignore_expr [''sub/ignored'']))"
  let ?items = "fst (recurse ?ig (\<lambda>p. fs_fault fs0 (ReadDir p)) ''/r'' [] tree0)"
  let ?R = "run_pool rle ?ig ''/r'' 9 (assign sched0 (nat 1) ?items) (start_pool (nat 1) fs0)"
  have cp: "re_Compile (ignore_expr [''sub/ignored'']) = Inr ?ig"
    by (simp add: ev_run)
  have items: "?items = [''a'', ''b'', ''c'', ''d'']"
    by (simp add: ev_run ev)
  have rcalls: "p_calls ?R = [(0, ''a'', True, None), (0, ''b'', False, None),
                              (0, ''c'', False, None), (0, ''d'', False, None)]"
    unfolding items by (simp add: ev_run ev)
  have ns': "no_stale_tmp ''/r'' ?items"
    unfolding items by (simp add: no_stale_tmp_def Join_def)
  obtain fs' where r: "Recursive re_Compile rle sched0 fs0 tree0 ''/r'' 9 1 [''sub/ignored''] = Returned fs' 1 None"
  proof -
    have "\<exists>fs'. Recursive re_Compile rle sched0 fs0 tree0 ''/r'' 9 1 [''sub/ignored''] = Returned fs' 1 None"
      by (simp add: ev_run ev)
    then show ?thesis using that by blast
  qed
  note run = t[THEN conjunct2, THEN conjunct2, THEN conjunct2, THEN conjunct2, THEN conjunct2,
       THEN conjunct2, rule_format,
       of re_Compile "[''sub/ignored'']" ?ig rle sched0 fs0 tree0 "''/r''" 1 fs' 1 None ?items]
  from run[of "(0, ''a'', True, None)"] cp r ns' rcalls
  have ra: "has_mtime fs' ''/r/a'' 9 \<and> has_mtime fs' ''/r/a.gz'' 9"
    by (simp add: Join_def del: recurse.simps)
  from run[of "(0, ''b'', False, None)"] cp r ns' rcalls
  have rb: "has_mtime fs' ''/r/b'' 9"
    by (simp add: Join_def del: recurse.simps)
  from r ra rb have rx: "\<exists>fs'. Recursive re_Compile rle sched0 fs0 tree0 ''/r'' 9 1 [''sub/ignored''] = Returned fs' 1 None
          \<and> has_mtime fs' ''/r/a'' 9 \<and> has_mtime fs' ''/r/a.gz'' 9 \<and> has_mtime fs' ''/r/b'' 9"
    by blast
  from storable_9 a' ex f0 c1 ns pa pd rx show ?thesis by simp
qed

subsection \<open>Ignored paths are left alone\<close>

lemma tree_ok_parts:
  "tree_ok tree \<Longrightarrow> list_all valid_name (map Name tree) \<and> list_all entry_ok tree"
  by (simp add: tree_ok_def listing_ok_def)

lemma walker_avoids_ignored:
  assumes "tree_ok tree" "p \<in> set (fst (recurse ignore rd root [] tree))" "beneath d p"
  shows "\<not> ignore d"
  using recurse_not_beneath_ignored(1)[of "[]" ignore tree p rd root d] tree_ok_parts[OF assms(1)]
    assms(2,3) by blast

lemma pool_calls_not_ignored:
  assumes "c \<in> set (p_calls (run_pool enc ignore root m queue (start_pool k fs)))"
  shows "fst (snd c) \<in> fst ` set queue \<and> \<not> ignore (fst (snd c))"
  using run_pool_calls[OF assms] by (simp add: start_pool_def)


text \<open>
  C6: a path matching the compiled pattern gets no artifact, nor does anything beneath it.
  (1) The walker does not enter a directory whose relative path matches: the loop continues with the
  next entry, and nothing of the subtree is read or sent.  (2) In a well-formed listing no sent path
  lies beneath a matching directory.  (3) A worker never calls \<open>IfSmallerBuffer\<close> on a dequeued
  path that matches, whatever the queue holds.  (4) In the pool that \<open>Recursive\<close> runs no call is
  made on a path that matches or lies beneath a matching path.  (5) After a run of \<open>Recursive\<close>
  that returns, the artifact path and the temporary path of such a path are as before the run:
  absent if they were absent, with the same contents otherwise.
\<close>

theorem C6_ignored_paths:
  fixes enc :: "'z encoder"
  shows "(ignore (Join prefix nm) \<longrightarrow>
            recurse_loop ignore rd root prefix (Dir nm sub # ds)
              = recurse_loop ignore rd root prefix ds)
       \<and> (tree_ok tree \<and> p \<in> set (fst (recurse ignore rd root [] tree)) \<and> beneath d p \<longrightarrow>
            \<not> ignore d)
       \<and> (c \<in> set (p_calls (run_pool enc ignore root m queue (start_pool k fs))) \<longrightarrow>
            \<not> ignore (fst (snd c)))
       \<and> (tree_ok tree
            \<and> c \<in> set (p_calls (run_pool enc ignore root m
                           (assign sch k (fst (recurse ignore rd root [] tree))) (start_pool k fs)))
            \<and> (ignore x \<or> (\<exists>d. ignore d \<and> beneath d x)) \<longrightarrow>
            fst (snd c) \<noteq> x)
       \<and> (tree_ok tree \<and> compile (ignore_expr ignorePattern) = Inr ignore
            \<and> Recursive compile enc sch fs tree root m concurrency ignorePattern
                 = Returned fs' total' err
            \<and> (ignore x \<or> (\<exists>d. ignore d \<and> beneath d x)) \<longrightarrow>
              map_option f_data (fs_files fs' (Join root x @ ''.gz''))
                = map_option f_data (fs_files fs (Join root x @ ''.gz''))
            \<and> map_option f_data (fs_files fs' (Join root x @ ''.gz~''))
                = map_option f_data (fs_files fs (Join root x @ ''.gz~'')))"
proof (intro conjI impI)
  {
    assume "ignore (Join prefix nm)"
    then show "recurse_loop ignore rd root prefix (Dir nm sub # ds)
              = recurse_loop ignore rd root prefix ds" by (rule loop_Dir_skip)
  }
  {
    assume "tree_ok tree \<and> p \<in> set (fst (recurse ignore rd root [] tree)) \<and> beneath d p"
    then show "\<not> ignore d" using walker_avoids_ignored by blast
  }
  {
    assume "c \<in> set (p_calls (run_pool enc ignore root m queue (start_pool k fs)))"
    from pool_calls_not_ignored[OF this] show "\<not> ignore (fst (snd c))" by simp
  }
  {
    assume a: "tree_ok tree
            \<and> c \<in> set (p_calls (run_pool enc ignore root m
                           (assign sch k (fst (recurse ignore rd root [] tree))) (start_pool k fs)))
            \<and> (ignore x \<or> (\<exists>d. ignore d \<and> beneath d x))"
    then have t: "tree_ok tree"
      and c: "c \<in> set (p_calls (run_pool enc ignore root m
                           (assign sch k (fst (recurse ignore rd root [] tree))) (start_pool k fs)))"
      and x: "ignore x \<or> (\<exists>d. ignore d \<and> beneath d x)" by blast+
    from pool_calls_not_ignored[OF c] have ni: "\<not> ignore (fst (snd c))"
      and "fst (snd c) \<in> fst ` set (assign sch k (fst (recurse ignore rd root [] tree)))"
      by blast+
    then have "fst (snd c) \<in> set (fst (recurse ignore rd root [] tree))"
      by (auto dest: assign_items)
    with x ni walker_avoids_ignored[OF t] show "fst (snd c) \<noteq> x" by blast
  }
  {
    assume a: "tree_ok tree \<and> compile (ignore_expr ignorePattern) = Inr ignore
            \<and> Recursive compile enc sch fs tree root m concurrency ignorePattern
                 = Returned fs' total' err
            \<and> (ignore x \<or> (\<exists>d. ignore d \<and> beneath d x))"
    then have t: "tree_ok tree" and cp: "compile (ignore_expr ignorePattern) = Inr ignore"
      and r: "Recursive compile enc sch fs tree root m concurrency ignorePattern
                 = Returned fs' total' err"
      and x: "ignore x \<or> (\<exists>d. ignore d \<and> beneath d x)" by blast+
    let ?items = "fst (recurse ignore (\<lambda>p. fs_fault fs (ReadDir p)) root [] tree)"
    let ?q = "assign sch (nat concurrency) ?items"
    note fs' = Recursive_Returned[OF cp r]
    have other: "s \<noteq> x" if "(s, i) \<in> set ?q" "\<not> ignore s" for s i
    proof -
      from that(1) have "s \<in> set ?items" by (rule assign_items)
      with x that(2) walker_avoids_ignored[OF t] show ?thesis by blast
    qed
    have frame: "map_option f_data (fs_files fs' q) = map_option f_data (fs_files fs q)"
      if "\<And>s i. (s, i) \<in> set ?q \<Longrightarrow> \<not> ignore s \<Longrightarrow>
             q \<noteq> Join root s @ ''.gz'' \<and> q \<noteq> Join root s @ ''.gz~''" for q
      unfolding fs' using run_pool_frame_data[of ?q ignore q root enc m "start_pool (nat concurrency) fs"] that
      by (simp add: start_pool_def del: recurse.simps)
    show "map_option f_data (fs_files fs' (Join root x @ ''.gz''))
                = map_option f_data (fs_files fs (Join root x @ ''.gz''))"
    proof (rule frame)
      fix s i assume "(s, i) \<in> set ?q" "\<not> ignore s"
      from other[OF this] have "Join root x \<noteq> Join root s" using Join_inject by blast
      then show "Join root x @ ''.gz'' \<noteq> Join root s @ ''.gz''
           \<and> Join root x @ ''.gz'' \<noteq> Join root s @ ''.gz~''"
        using gz_not_tmp by simp
    qed
    show "map_option f_data (fs_files fs' (Join root x @ ''.gz~''))
                = map_option f_data (fs_files fs (Join root x @ ''.gz~''))"
    proof (rule frame)
      fix s i assume "(s, i) \<in> set ?q" "\<not> ignore s"
      from other[OF this] have "Join root x \<noteq> Join root s" using Join_inject by blast
      then show "Join root x @ ''.gz~'' \<noteq> Join root s @ ''.gz''
           \<and> Join root x @ ''.gz~'' \<noteq> Join root s @ ''.gz~''"
        using gz_not_tmp[of "Join root s" "Join root x"] by auto
    qed
  }
qed

theorem C6_ignored_paths_witness:
  "re_Compile (ignore_expr [''sub/ignored''])
     = Inr (projr (re_Compile (ignore_expr [''sub/ignored''])))
   \<and> projr (re_Compile (ignore_expr [''sub/ignored''])) ''sub/ignored''
   \<and> tree_ok listing1
   \<and> recurse (projr (re_Compile (ignore_expr [''sub/ignored'']))) (\<lambda>p. None) ''/r'' [] listing1
       = ([''a'', ''sub/f''], None)
   \<and> beneath ''sub'' ''sub/f''
   \<and> \<not> projr (re_Compile (ignore_expr [''sub/ignored''])) ''sub''
   \<and> beneath ''sub/ignored'' ''sub/ignored/e''
   \<and> (\<exists>fs'. Recursive re_Compile rle sched0 store1 listing1 ''/r'' 9 1 [''sub/ignored'']
               = Returned fs' 2 None
          \<and> fs_files fs' ''/r/sub/f.gz'' \<noteq> None
          \<and> fs_files fs' ''/r/sub/ignored/e.gz'' = None
          \<and> fs_files fs' ''/r/sub/ignored.gz'' = None)"
proof -
  let ?ig = "projr (re_Compile (ignore_expr [''sub/ignored'']))"
  have cp: "re_Compile (ignore_expr [''sub/ignored'']) = Inr ?ig"
    by (simp add: ev_run)
  have ig: "?ig ''sub/ignored''" "\<not> ?ig ''sub''"
    by (simp_all add: ev_run)
  have ok: "tree_ok listing1"
    by (simp add: tree_ok_def listing_ok_def valid_name_def listing1_def)
  have items: "recurse ?ig (\<lambda>p. None) ''/r'' [] listing1 = ([''a'', ''sub/f''], None)"
    by (simp add: ev_run listing1_def)
  have b: "beneath ''sub'' ''sub/f''" "beneath ''sub/ignored'' ''sub/ignored/e''"
    by (simp_all add: beneath_def)
  note t = C6_ignored_paths
  from t[THEN conjunct2, THEN conjunct1, rule_format, of listing1 "''sub/f''" ?ig "\<lambda>p. None" "''/r''" "''sub''"]
    ok items b
  have w2: "\<not> ?ig ''sub''" by simp
  obtain fs' where r: "Recursive re_Compile rle sched0 store1 listing1 ''/r'' 9 1 [''sub/ignored''] = Returned fs' 2 None"
    and f: "fs_files fs' ''/r/sub/f.gz'' \<noteq> None"
  proof -
    have "\<exists>fs'. Recursive re_Compile rle sched0 store1 listing1 ''/r'' 9 1 [''sub/ignored''] = Returned fs' 2 None
            \<and> fs_files fs' ''/r/sub/f.gz'' \<noteq> None"
      by (simp add: ev_run ev listing1_def store1_def)
    then show ?thesis using that by blast
  qed
  note run = t[THEN conjunct2, THEN conjunct2, THEN conjunct2, THEN conjunct2, rule_format,
      of listing1 re_Compile "[''sub/ignored'']" ?ig rle sched0 store1 "''/r''" 9 1 fs' 2 None]
  have e0: "fs_files store1 ''/r/sub/ignored/e.gz'' = None" "fs_files store1 ''/r/sub/ignored.gz'' = None"
    by (simp_all add: store1_def)
  from run[of "''sub/ignored/e''"] ok cp r ig(1) b(2)
  have "map_option f_data (fs_files fs' (Join ''/r'' ''sub/ignored/e'' @ ''.gz''))
          = map_option f_data (fs_files store1 (Join ''/r'' ''sub/ignored/e'' @ ''.gz''))"
    by blast
  with e0 have w5: "fs_files fs' ''/r/sub/ignored/e.gz'' = None" by (simp add: Join_def)
  from run[of "''sub/ignored''"] ok cp r ig(1)
  have "map_option f_data (fs_files fs' (Join ''/r'' ''sub/ignored'' @ ''.gz''))
          = map_option f_data (fs_files store1 (Join ''/r'' ''sub/ignored'' @ ''.gz''))"
    by blast
  with e0 have w6: "fs_files fs' ''/r/sub/ignored.gz'' = None" by (simp add: Join_def)
  from r f w5 w6 have "\<exists>fs'. Recursive re_Compile rle sched0 store1 listing1 ''/r'' 9 1 [''sub/ignored'']
               = Returned fs' 2 None
          \<and> fs_files fs' ''/r/sub/f.gz'' \<noteq> None
          \<and> fs_files fs' ''/r/sub/ignored/e.gz'' = None
          \<and> fs_files fs' ''/r/sub/ignored.gz'' = None" by blast
  with cp ig ok items b show ?thesis by simp
qed

subsection \<open>A run with no fragments\<close>

lemma parse_no_fragments: "parse [] [] [] ''^$'' = Parsed (Cat Bol Eol)"
  by (simp add: close_group_def)

lemma MatchString_Bol_Eol: "MatchString (Cat Bol Eol) s = (s = [])"
  by (auto simp: MatchString_def list_ex_iff)

lemma re_Compile_no_fragments: "re_Compile (ignore_expr []) = Inr (MatchString (Cat Bol Eol))"
  by (simp add: re_Compile_def ignore_expr_def close_group_def)

lemma dir_paths_nonempty:
  "list_all valid_name (map Name ds) \<Longrightarrow> list_all entry_ok ds \<Longrightarrow>
     p \<in> set (dir_paths prefix ds) \<Longrightarrow> p \<noteq> []"
proof (induction prefix ds arbitrary: p rule: dir_paths.induct)
  case (4 prefix nm sub ds)
  from "4.prems"(1) have nm: "nm \<noteq> []" by (simp add: valid_name_def)
  from "4.prems"(3) consider "p = Join prefix nm" | "p \<in> set (dir_paths (Join prefix nm) sub)"
    | "p \<in> set (dir_paths prefix ds)" by auto
  then show ?case
  proof cases
    case 1
    with nm show ?thesis by (simp add: Join_nonempty)
  next
    case 2
    with "4.IH"(1)[of p] "4.prems"(2) show ?thesis by simp
  next
    case 3
    with "4.IH"(2)[of p] "4.prems"(1,2) show ?thesis by simp
  qed
qed simp_all

lemma recurse_items_nonempty:
  "list_all valid_name (map Name ds) \<Longrightarrow> list_all entry_ok ds \<Longrightarrow>
     p \<in> set (fst (recurse ignore rd root prefix ds)) \<Longrightarrow> p \<noteq> []"
  "list_all valid_name (map Name ds') \<Longrightarrow> list_all entry_ok ds' \<Longrightarrow>
     p \<in> set (fst (recurse_loop ignore rd root prefix ds')) \<Longrightarrow> p \<noteq> []"
proof (induction ignore rd root prefix ds and ignore rd root prefix ds'
       arbitrary: p and p rule: recurse_recurse_loop.induct)
  case (1 ignore rd root prefix dirs)
  then show ?case by (auto split: option.splits)
next
  case (2 ignore rd root prefix)
  then show ?case by simp
next
  case (3 ignore rd root prefix nm ds)
  from "3.prems"(1) have nm: "Join prefix nm \<noteq> []" by (simp add: valid_name_def Join_nonempty)
  from "3.prems"(3) have "p = Join prefix nm \<or> p \<in> set (fst (recurse_loop ignore rd root prefix ds))"
    by (auto split: if_splits prod.splits)
  with nm "3.IH" "3.prems"(1,2) show ?case by (auto split: if_splits)
next
  case (4 ignore rd root prefix nm sub ds)
  show ?case
  proof (cases "ignore (Join prefix nm)")
    case True
    with "4.prems"(3) have "p \<in> set (fst (recurse_loop ignore rd root prefix ds))" by simp
    with "4.IH"(1)[OF True, of p] "4.prems"(1,2) show ?thesis by simp
  next
    case False
    obtain ws e where r: "recurse ignore rd root (Join prefix nm) sub = (ws, e)" by (cases "recurse ignore rd root (Join prefix nm) sub")
    from "4.prems"(2) have sub: "list_all valid_name (map Name sub)" "list_all entry_ok sub" by simp_all
    show ?thesis
    proof (cases e)
      case (Some e')
      with r False "4.prems"(3) have "p \<in> set (fst (recurse ignore rd root (Join prefix nm) sub))"
        by (simp del: recurse.simps)
      with "4.IH"(2)[OF False, of p] sub show ?thesis by blast
    next
      case None
      with r False "4.prems"(3) have "p \<in> set (fst (recurse ignore rd root (Join prefix nm) sub))
          \<or> p \<in> set (fst (recurse_loop ignore rd root prefix ds))"
        by (auto simp del: recurse.simps split: prod.splits)
      then show ?thesis
      proof
        assume "p \<in> set (fst (recurse ignore rd root (Join prefix nm) sub))"
        with "4.IH"(2)[OF False, of p] sub show ?thesis by blast
      next
        assume a: "p \<in> set (fst (recurse_loop ignore rd root prefix ds))"
        from r None have "(ws, None) = recurse ignore rd root (Join prefix nm) sub" by simp
        from "4.IH"(3)[OF False this refl, of p] a "4.prems"(1,2) show ?thesis by simp
      qed
    qed
  qed
next
  case (5 ignore rd root prefix nm ds)
  then show ?case by simp
qed

lemma take_item_cong:
  "ignore s = ignore' s \<Longrightarrow>
     take_item enc ignore root m (s, i) p = take_item enc ignore' root m (s, i) p"
  by (cases "ignore s") (simp_all add: take_item_def worker_iter_def Let_def split: option.splits)

lemma run_pool_cong:
  "(\<And>s i. (s, i) \<in> set queue \<Longrightarrow> ignore s = ignore' s) \<Longrightarrow>
     run_pool enc ignore root m queue p = run_pool enc ignore' root m queue p"
proof (induction queue arbitrary: p)
  case Nil
  then show ?case by (simp add: run_pool_def)
next
  case (Cons it queue)
  obtain s i where it: "it = (s, i)" by (cases it)
  with Cons.prems have "ignore s = ignore' s" by (metis list.set_intros(1))
  then have t: "take_item enc ignore root m it p = take_item enc ignore' root m it p"
    unfolding it by (rule take_item_cong)
  have "run_pool enc ignore root m queue (take_item enc ignore' root m it p)
      = run_pool enc ignore' root m queue (take_item enc ignore' root m it p)"
  proof (rule Cons.IH)
    fix s' i' assume "(s', i') \<in> set queue"
    then show "ignore s' = ignore' s'" using Cons.prems by (metis list.set_intros(2))
  qed
  with t show ?case by (simp add: run_pool_def)
qed

lemma only_empty_never:
  assumes ok: "tree_ok tree" and ig: "\<And>s. ignore s \<Longrightarrow> s = []"
  shows "recurse ignore rd root [] tree = recurse (\<lambda>s. False) rd root [] tree"
    and "run_pool enc ignore root m (assign sch k (fst (recurse ignore rd root [] tree))) p
       = run_pool enc (\<lambda>s. False) root m (assign sch k (fst (recurse ignore rd root [] tree))) p"
proof -
  note parts = tree_ok_parts[OF ok]
  show "recurse ignore rd root [] tree = recurse (\<lambda>s. False) rd root [] tree"
  proof (rule recurse_ignore_cong(1))
    fix p assume "p \<in> set (dir_paths [] tree)"
    with parts have "p \<noteq> []" using dir_paths_nonempty by blast
    with ig show "ignore p = False" by blast
  qed
  show "run_pool enc ignore root m (assign sch k (fst (recurse ignore rd root [] tree))) p
       = run_pool enc (\<lambda>s. False) root m (assign sch k (fst (recurse ignore rd root [] tree))) p"
  proof (rule run_pool_cong)
    fix s i assume "(s, i) \<in> set (assign sch k (fst (recurse ignore rd root [] tree)))"
    then have "s \<in> set (fst (recurse ignore rd root [] tree))" by (rule assign_items)
    with parts have "s \<noteq> []" using recurse_items_nonempty(1) by blast
    with ig show "ignore s = False" by blast
  qed
qed

lemma Recursive_no_fragments:
  fixes enc :: "'z encoder"
  assumes ok: "tree_ok tree"
  shows "Recursive re_Compile enc sch fs tree root m c []
       = Recursive (\<lambda>e. Inr (\<lambda>s. False)) enc sch fs tree root m c []"
proof -
  let ?ig = "MatchString (Cat Bol Eol)"
  let ?rd = "\<lambda>p. fs_fault fs (ReadDir p)"
  have ig: "\<And>s. ?ig s \<Longrightarrow> s = []" by (simp add: MatchString_Bol_Eol)
  have a: "recurse ?ig ?rd root [] tree = recurse (\<lambda>s. False) ?rd root [] tree"
    using only_empty_never(1)[OF ok ig] by blast
  have b: "\<And>k. run_pool enc ?ig root m (assign sch k (fst (recurse ?ig ?rd root [] tree))) (start_pool k fs)
       = run_pool enc (\<lambda>s. False) root m (assign sch k (fst (recurse ?ig ?rd root [] tree))) (start_pool k fs)"
    using only_empty_never(2)[OF ok ig] by blast
  obtain items err where r: "recurse (\<lambda>s. False) ?rd root [] tree = (items, err)"
    by (cases "recurse (\<lambda>s. False) ?rd root [] tree")
  from b[unfolded a r] have b': "\<And>k. run_pool enc ?ig root m (assign sch k items) (start_pool k fs)
       = run_pool enc (\<lambda>s. False) root m (assign sch k items) (start_pool k fs)" by simp
  show ?thesis
    unfolding Recursive_def re_Compile_no_fragments
    by (simp only: a r b' sum.case prod.case Let_def)
qed


text \<open>
  C9: with no fragments the expression compiled is \<open>^$\<close>, which matches the empty text only.
  The relative paths the walker tests (those of the directories of the listing) and the paths a
  worker tests (those the walker sent) are not empty, so the compiled pattern is false on each
  of them; the walker sends, and the pool does, what they do with a pattern that never matches,
  and \<open>Recursive\<close> comes to the same outcome as with such a pattern.
\<close>

theorem C9_no_fragments:
  fixes enc :: "'z encoder"
  shows "ignore_expr [] = ''^$''
    \<and> (\<exists>ig. re_Compile (ignore_expr []) = Inr ig \<and> (\<forall>s. ig s = (s = [])))
    \<and> (tree_ok tree \<and> re_Compile (ignore_expr []) = Inr ig \<longrightarrow>
          (\<forall>p \<in> set (dir_paths [] tree). \<not> ig p)
        \<and> (\<forall>p \<in> set (fst (recurse ig rd root [] tree)). \<not> ig p)
        \<and> recurse ig rd root [] tree = recurse (\<lambda>s. False) rd root [] tree
        \<and> run_pool enc ig root m (assign sch k (fst (recurse ig rd root [] tree))) (start_pool k fs)
            = run_pool enc (\<lambda>s. False) root m
                (assign sch k (fst (recurse (\<lambda>s. False) rd root [] tree))) (start_pool k fs))
    \<and> (tree_ok tree \<longrightarrow>
          Recursive re_Compile enc sch fs tree root m concurrency []
            = Recursive (\<lambda>e. Inr (\<lambda>s. False)) enc sch fs tree root m concurrency [])"
proof (intro conjI impI)
  show "ignore_expr [] = ''^$''" by (simp add: ignore_expr_def)
  show "\<exists>ig. re_Compile (ignore_expr []) = Inr ig \<and> (\<forall>s. ig s = (s = []))"
    using re_Compile_no_fragments MatchString_Bol_Eol by blast
next
  assume a: "tree_ok tree \<and> re_Compile (ignore_expr []) = Inr ig"
  then have ig: "ig = MatchString (Cat Bol Eol)" by (simp add: re_Compile_no_fragments)
  then have e: "\<And>s. ig s \<Longrightarrow> s = []" by (simp add: MatchString_Bol_Eol)
  from a have ok: "tree_ok tree" by simp
  note parts = tree_ok_parts[OF ok]
  show "\<forall>p \<in> set (dir_paths [] tree). \<not> ig p"
    using dir_paths_nonempty parts e by blast
  show "\<forall>p \<in> set (fst (recurse ig rd root [] tree)). \<not> ig p"
    using recurse_items_nonempty(1) parts e by blast
  show r: "recurse ig rd root [] tree = recurse (\<lambda>s. False) rd root [] tree"
    using only_empty_never(1)[where ignore = ig, OF ok e] by blast
  show "run_pool enc ig root m (assign sch k (fst (recurse ig rd root [] tree))) (start_pool k fs)
            = run_pool enc (\<lambda>s. False) root m
                (assign sch k (fst (recurse (\<lambda>s. False) rd root [] tree))) (start_pool k fs)"
  proof -
    have "run_pool enc ig root m (assign sch k (fst (recurse ig rd root [] tree))) (start_pool k fs)
            = run_pool enc (\<lambda>s. False) root m
                (assign sch k (fst (recurse ig rd root [] tree))) (start_pool k fs)"
      by (rule only_empty_never(2)[where ignore = ig, OF ok e])
    then show ?thesis by (simp only: r)
  qed
next
  assume "tree_ok tree"
  then show "Recursive re_Compile enc sch fs tree root m concurrency []
            = Recursive (\<lambda>e. Inr (\<lambda>s. False)) enc sch fs tree root m concurrency []"
    by (rule Recursive_no_fragments)
qed

theorem C9_no_fragments_witness:
  "tree_ok listing1
   \<and> re_Compile (ignore_expr []) = Inr (projr (re_Compile (ignore_expr [])))
   \<and> dir_paths [] listing1 = [''sub'', ''sub/ignored'']
   \<and> \<not> projr (re_Compile (ignore_expr [])) ''sub''
   \<and> \<not> projr (re_Compile (ignore_expr [])) ''sub/ignored''
   \<and> recurse (projr (re_Compile (ignore_expr []))) (\<lambda>p. None) ''/r'' [] listing1
       = ([''a'', ''sub/f'', ''sub/ignored/e''], None)
   \<and> recurse (\<lambda>s. False) (\<lambda>p. None) ''/r'' [] listing1
       = ([''a'', ''sub/f'', ''sub/ignored/e''], None)
   \<and> (\<exists>fs'. Recursive (\<lambda>e. Inr (\<lambda>s. False)) rle sched0 store1 listing1 ''/r'' 9 1 []
               = Returned fs' 3 None
           \<and> Recursive re_Compile rle sched0 store1 listing1 ''/r'' 9 1 [] = Returned fs' 3 None)"
proof -
  let ?ig = "projr (re_Compile (ignore_expr []))"
  have cp: "re_Compile (ignore_expr []) = Inr ?ig"
    by (simp add: ev_run)
  have ok: "tree_ok listing1"
    by (simp add: tree_ok_def listing_ok_def valid_name_def listing1_def)
  have dp: "dir_paths [] listing1 = [''sub'', ''sub/ignored'']"
    by (simp add: listing1_def Join_def)
  have items: "recurse (\<lambda>s. False) (\<lambda>p. None) ''/r'' [] listing1
       = ([''a'', ''sub/f'', ''sub/ignored/e''], None)"
    by (simp add: listing1_def Join_def HasSuffix_def)
  note t = C9_no_fragments[where tree = listing1 and ig = ?ig and rd = "\<lambda>p. None" and root = "''/r''"
      and enc = rle and m = 9 and sch = sched0 and k = 1 and fs = store1 and concurrency = 1]
  note t3 = t[THEN conjunct2, THEN conjunct2, THEN conjunct1, THEN mp, OF conjI, OF ok cp]
  from t3[THEN conjunct1] dp have w1: "\<not> ?ig ''sub''" "\<not> ?ig ''sub/ignored''"
    by simp_all
  from t3[THEN conjunct2, THEN conjunct2, THEN conjunct1] items
  have w2: "recurse ?ig (\<lambda>p. None) ''/r'' [] listing1 = ([''a'', ''sub/f'', ''sub/ignored/e''], None)"
    by (simp del: recurse.simps)
  obtain fs' where r: "Recursive (\<lambda>e. Inr (\<lambda>s. False)) rle sched0 store1 listing1 ''/r'' 9 1 []
               = Returned fs' 3 None"
  proof -
    have "\<exists>fs'. Recursive (\<lambda>e. Inr (\<lambda>s. False)) rle sched0 store1 listing1 ''/r'' 9 1 []
               = Returned fs' 3 None"
      by (simp add: ev_run ev listing1_def store1_def)
    then show ?thesis using that by blast
  qed
  from t[THEN conjunct2, THEN conjunct2, THEN conjunct2, THEN mp, OF ok] r
  have "Recursive re_Compile rle sched0 store1 listing1 ''/r'' 9 1 [] = Returned fs' 3 None"
    by simp
  with r have w3: "\<exists>fs'. Recursive (\<lambda>e. Inr (\<lambda>s. False)) rle sched0 store1 listing1 ''/r'' 9 1 []
               = Returned fs' 3 None
           \<and> Recursive re_Compile rle sched0 store1 listing1 ''/r'' 9 1 [] = Returned fs' 3 None"
    by blast
  from ok cp dp w1 w2 items w3 show ?thesis by (simp del: recurse.simps)
qed

end
